theory Spec2Isabelle
  imports Main
begin

section \<open>Data model\<close>

text \<open>
  Signals live in a heap indexed by creation order; a signal reference is its index.
  A listener is a function reference held in a signal's listener set: either a callback
  of a consumer outside the graph (identified by a number; what the callbacks do when
  called is a parameter \<open>ext\<close> of every operation that can call one), or the
  \<open>passUpdate\<close> closure of a derived signal.
  The closure returned by \<open>subscribe\<close> remembers the signal and the listener.
\<close>

type_synonym sid = nat

datatype listener = External nat | PassUpdate sid

datatype cleanup = Unsubscribe sid listener

text \<open>
  What a call can throw: a value thrown by a user computation, the engine's
  stack exhaustion (the call depth is bounded by an explicit budget), a reference to
  a signal that does not exist, or a call of a method the signal does not have.
\<close>

datatype error = Thrown | RangeError | ReferenceError | TypeError

text \<open>
  A user computation \<open>() => T\<close>: it returns, throws, or reads a signal and goes on
  with the value read.
\<close>

datatype 'v computation = Return 'v | Throw | Read sid "'v \<Rightarrow> 'v computation"

text \<open>
  The closure variables of the three constructors: \<open>signal\<close> has none beside
  \<open>equal\<close>; \<open>computed\<close> keeps \<open>computation\<close>; \<open>linkedSignal\<close> keeps \<open>srcFn\<close> and
  \<open>computation(srcVal, prev)\<close>.
\<close>

datatype 'v kind =
    Writable
  | Computed "'v computation"
  | Linked "'v computation" "'v \<Rightarrow> ('v \<times> 'v) option \<Rightarrow> 'v computation"

definition isWritable :: "'v kind \<Rightarrow> bool" where
  "isWritable k = (case k of Writable \<Rightarrow> True | _ \<Rightarrow> False)"

record 'v sigstate =
  val :: 'v
  listeners :: "listener list"
  cleanups :: "cleanup list"
  deps :: "sid list"
  equal_fn :: "'v \<Rightarrow> 'v \<Rightarrow> bool"
  kind :: "'v kind"

text \<open>
  The trace records what a spy would see: each call of a derived signal's
  \<open>computation\<close> and each call of an external listener with its argument.
\<close>

datatype 'v event = Executed sid | Called nat 'v

text \<open>The tracking stack holds its top frame at the head of the list.\<close>

record 'v world =
  sigs :: "'v sigstate list"
  contextStack :: "sid list list"
  trace :: "'v event list"

type_synonym ('v, 'a) action = "'v world \<Rightarrow> (error + 'a) \<times> 'v world"

text \<open>An insertion-ordered \<open>Set\<close>: \<open>add\<close> keeps the first occurrence, \<open>delete\<close> removes.\<close>

definition set_add :: "'a \<Rightarrow> 'a list \<Rightarrow> 'a list" where
  "set_add x xs = (if x \<in> set xs then xs else xs @ [x])"

definition set_delete :: "'a \<Rightarrow> 'a list \<Rightarrow> 'a list" where
  "set_delete x xs = removeAll x xs"

text \<open>
  \<open>prev === next\<close>: equality of values on numbers, strings and booleans. An object is
  \<open>===\<close> only to itself, so a value type with objects has to carry their identity for
  this definition to be the code's; the scenarios below compare objects that differ in
  content.
\<close>

definition defaultEqual :: "'v \<Rightarrow> 'v \<Rightarrow> bool" where
  "defaultEqual prev next = (prev = next)"

definition sig_at :: "'v world \<Rightarrow> sid \<Rightarrow> 'v sigstate" where
  "sig_at s i = sigs s ! i"

definition upd :: "sid \<Rightarrow> ('v sigstate \<Rightarrow> 'v sigstate) \<Rightarrow> 'v world \<Rightarrow> 'v world" where
  "upd i f s = s\<lparr>sigs := (sigs s)[i := f (sigs s ! i)]\<rparr>"

definition emit :: "'v event \<Rightarrow> 'v world \<Rightarrow> 'v world" where
  "emit e s = s\<lparr>trace := trace s @ [e]\<rparr>"

section \<open>SignalContext\<close>

definition isContextOpen :: "'v world \<Rightarrow> bool" where
  "isContextOpen s = (length (contextStack s) > 0)"

definition register :: "sid \<Rightarrow> 'v world \<Rightarrow> 'v world" where
  "register i s =
     (case contextStack s of
        [] \<Rightarrow> s
      | currentContext # below \<Rightarrow> s\<lparr>contextStack := set_add i currentContext # below\<rparr>)"

text \<open>
  \<open>scan\<close> pushes a fresh frame, runs the computation, drops whatever it threw,
  pops one frame and returns the frame it pushed.
\<close>

definition scan :: "('v, 'a) action \<Rightarrow> 'v world \<Rightarrow> sid list \<times> 'v world" where
  "scan computation s =
     (let s1 = s\<lparr>contextStack := [] # contextStack s\<rparr>;
          s2 = snd (computation s1)
      in (case contextStack s2 of [] \<Rightarrow> [] | context # below \<Rightarrow> context,
          s2\<lparr>contextStack := tl (contextStack s2)\<rparr>))"

section \<open>Running computations and reading signals\<close>

primrec run :: "(sid \<Rightarrow> ('v, 'v) action) \<Rightarrow> 'v computation \<Rightarrow> ('v, 'v) action" where
  "run rd (Return v) s = (Inr v, s)"
| "run rd Throw s = (Inl Thrown, s)"
| "run rd (Read i k) s =
     (case rd i s of
        (Inl e, s') \<Rightarrow> (Inl e, s')
      | (Inr v, s') \<Rightarrow> run rd (k v) s')"

text \<open>A call of the closure variable \<open>computation\<close> of signal \<open>i\<close>.\<close>

definition exec :: "(sid \<Rightarrow> ('v, 'v) action) \<Rightarrow> sid \<Rightarrow> 'v computation \<Rightarrow> ('v, 'v) action" where
  "exec rd i c s = run rd c (emit (Executed i) s)"

text \<open>
  The linked signal's evaluation: \<open>sourceVal = srcFn()\<close>, then
  \<open>computation(sourceVal, {source: sourceVal, prevValue: _state.value})\<close>.
\<close>

definition derive ::
  "(sid \<Rightarrow> ('v, 'v) action) \<Rightarrow> sid \<Rightarrow> 'v computation \<Rightarrow> ('v \<Rightarrow> ('v \<times> 'v) option \<Rightarrow> 'v computation)
    \<Rightarrow> ('v, 'v) action" where
  "derive rd i srcFn computation s =
     (case run rd srcFn s of
        (Inl e, s1) \<Rightarrow> (Inl e, s1)
      | (Inr sourceVal, s1) \<Rightarrow>
          exec rd i (computation sourceVal (Some (sourceVal, val (sig_at s1 i)))) s1)"

text \<open>One evaluation of a derived signal, by its kind.\<close>

definition recompute :: "(sid \<Rightarrow> ('v, 'v) action) \<Rightarrow> sid \<Rightarrow> 'v kind \<Rightarrow> ('v, 'v) action" where
  "recompute rd i k s =
     (case k of
        Writable \<Rightarrow> (Inl TypeError, s)
      | Computed computation \<Rightarrow> exec rd i computation s
      | Linked srcFn computation \<Rightarrow> derive rd i srcFn computation s)"

text \<open>
  \<open>signalRef()\<close>: register with the open frame; a derived signal with no listener
  recomputes and stores the result; the stored value is returned. The first argument
  is the call depth left.
\<close>

primrec read :: "nat \<Rightarrow> sid \<Rightarrow> ('v, 'v) action" where
  "read 0 i s = (Inl RangeError, s)"
| "read (Suc d) i s =
     (if length (sigs s) \<le> i then (Inl ReferenceError, s)
      else
        let s1 = (if isContextOpen s then register i s else s) in
        if \<not> isWritable (kind (sig_at s1 i)) \<and> listeners (sig_at s1 i) = [] then
          (case recompute (read d) i (kind (sig_at s1 i)) s1 of
             (Inl e, s2) \<Rightarrow> (Inl e, s2)
           | (Inr next, s2) \<Rightarrow>
               let s3 = upd i (\<lambda>g. g\<lparr>val := next\<rparr>) s2 in (Inr (val (sig_at s3 i)), s3))
        else (Inr (val (sig_at s1 i)), s1))"

section \<open>Notification\<close>

text \<open>
  \<open>l(value)\<close>: the call of an outside listener is recorded in the trace and then runs
  the listener's code \<open>ext n\<close>, which may read and write signals, subscribe, unsubscribe
  or throw. \<open>observer\<close> is the code of a listener that only looks at its argument.
\<close>

definition observer :: "nat \<Rightarrow> 'v \<Rightarrow> ('v, unit) action" where
  "observer n v s = (Inr (), s)"

definition invoke ::
  "(nat \<Rightarrow> 'v \<Rightarrow> ('v, unit) action) \<Rightarrow> (sid \<Rightarrow> ('v, unit) action) \<Rightarrow> listener \<Rightarrow> 'v \<Rightarrow>
    ('v, unit) action" where
  "invoke ext pu l v s =
     (case l of
        External n \<Rightarrow> ext n v (emit (Called n v) s)
      | PassUpdate j \<Rightarrow> pu j s)"

text \<open>
  \<open>for (const l of listeners) l(arg)\<close>: the argument expression is evaluated at each
  call; the first listener that throws ends the loop. The loop is over the listeners
  held when it starts: it is the loop of the code as long as no listener called
  subscribes to or unsubscribes from the signal that is notifying.
\<close>

primrec notify ::
  "(listener \<Rightarrow> 'v \<Rightarrow> ('v, unit) action) \<Rightarrow> ('v world \<Rightarrow> 'v) \<Rightarrow> listener list \<Rightarrow> ('v, unit) action" where
  "notify call arg [] s = (Inr (), s)"
| "notify call arg (l # ls) s =
     (case call l (arg s) s of
        (Inl e, s') \<Rightarrow> (Inl e, s')
      | (Inr u, s') \<Rightarrow> notify call arg ls s')"

primrec passUpdate :: "(nat \<Rightarrow> 'v \<Rightarrow> ('v, unit) action) \<Rightarrow> nat \<Rightarrow> sid \<Rightarrow> ('v, unit) action" where
  "passUpdate ext 0 i s = (Inl RangeError, s)"
| "passUpdate ext (Suc d) i s =
     (if length (sigs s) \<le> i then (Inl ReferenceError, s)
      else if listeners (sig_at s i) = [] then (Inr (), s)
      else
        (case recompute (read d) i (kind (sig_at s i)) s of
           (Inl e, s1) \<Rightarrow> (Inl e, s1)
         | (Inr next, s1) \<Rightarrow>
             if equal_fn (sig_at s1 i) (val (sig_at s1 i)) next then (Inr (), s1)
             else
               let s2 = upd i (\<lambda>g. g\<lparr>val := next\<rparr>) s1 in
               notify (invoke ext (passUpdate ext d)) (\<lambda>w. val (sig_at w i)) (listeners (sig_at s2 i)) s2))"

section \<open>Writable and linked signals: set, update\<close>

definition set_signal ::
  "(nat \<Rightarrow> 'v \<Rightarrow> ('v, unit) action) \<Rightarrow> nat \<Rightarrow> sid \<Rightarrow> 'v \<Rightarrow> ('v, unit) action" where
  "set_signal ext d i v s =
     (if length (sigs s) \<le> i then (Inl ReferenceError, s)
      else if (case kind (sig_at s i) of Computed c \<Rightarrow> True | _ \<Rightarrow> False) then (Inl TypeError, s)
      else
        let prev = val (sig_at s i) in
        if equal_fn (sig_at s i) prev v then (Inr (), s)
        else
          let s1 = upd i (\<lambda>g. g\<lparr>val := v\<rparr>) s in
          notify (invoke ext (passUpdate ext d)) (\<lambda>w. v) (listeners (sig_at s1 i)) s1)"

definition update ::
  "(nat \<Rightarrow> 'v \<Rightarrow> ('v, unit) action) \<Rightarrow> nat \<Rightarrow> sid \<Rightarrow> ('v \<Rightarrow> 'v) \<Rightarrow> ('v, unit) action" where
  "update ext d i fn s =
     (if length (sigs s) \<le> i then (Inl ReferenceError, s)
      else
        let prev = val (sig_at s i); next = fn prev in
        set_signal ext d i next s)"

section \<open>subscribe and the closure it returns\<close>

primrec subscribe_deps ::
  "(sid \<Rightarrow> listener \<Rightarrow> ('v, cleanup) action) \<Rightarrow> sid \<Rightarrow> sid list \<Rightarrow> ('v, unit) action" where
  "subscribe_deps sub i [] s = (Inr (), s)"
| "subscribe_deps sub i (caller # rest) s =
     (case sub caller (PassUpdate i) s of
        (Inl e, s1) \<Rightarrow> (Inl e, s1)
      | (Inr cleanupFn, s1) \<Rightarrow>
          subscribe_deps sub i rest (upd i (\<lambda>g. g\<lparr>cleanups := cleanups g @ [cleanupFn]\<rparr>) s1))"

primrec subscribe ::
  "(nat \<Rightarrow> 'v \<Rightarrow> ('v, unit) action) \<Rightarrow> nat \<Rightarrow> sid \<Rightarrow> listener \<Rightarrow> ('v, cleanup) action" where
  "subscribe ext 0 i l s = (Inl RangeError, s)"
| "subscribe ext (Suc d) i l s =
     (if length (sigs s) \<le> i then (Inl ReferenceError, s)
      else if isWritable (kind (sig_at s i)) then
        (Inr (Unsubscribe i l), upd i (\<lambda>g. g\<lparr>listeners := set_add l (listeners g)\<rparr>) s)
      else if listeners (sig_at s i) = [] then
        (case subscribe_deps (subscribe ext d) i (deps (sig_at s i)) s of
           (Inl e, s1) \<Rightarrow> (Inl e, s1)
         | (Inr u, s1) \<Rightarrow>
             (case recompute (read d) i (kind (sig_at s1 i)) s1 of
                (Inl e, s2) \<Rightarrow> (Inl e, s2)
              | (Inr next, s2) \<Rightarrow>
                  (case invoke ext (passUpdate ext d) l next (upd i (\<lambda>g. g\<lparr>val := next\<rparr>) s2) of
                     (Inl e, s3) \<Rightarrow> (Inl e, s3)
                   | (Inr u', s3) \<Rightarrow>
                       (Inr (Unsubscribe i l),
                        upd i (\<lambda>g. g\<lparr>listeners := set_add l (listeners g)\<rparr>) s3))))
      else
        (Inr (Unsubscribe i l), upd i (\<lambda>g. g\<lparr>listeners := set_add l (listeners g)\<rparr>) s))"

primrec run_cleanups :: "(cleanup \<Rightarrow> ('v, unit) action) \<Rightarrow> cleanup list \<Rightarrow> ('v, unit) action" where
  "run_cleanups call [] s = (Inr (), s)"
| "run_cleanups call (cleanupFn # rest) s =
     (case call cleanupFn s of
        (Inl e, s1) \<Rightarrow> (Inl e, s1)
      | (Inr u, s1) \<Rightarrow> run_cleanups call rest s1)"

text \<open>Calling the closure that \<open>subscribe\<close> returned.\<close>

primrec unsubscribe :: "nat \<Rightarrow> cleanup \<Rightarrow> ('v, unit) action" where
  "unsubscribe 0 c s = (Inl RangeError, s)"
| "unsubscribe (Suc d) c s =
     (case c of Unsubscribe i l \<Rightarrow>
        if length (sigs s) \<le> i then (Inl ReferenceError, s)
        else
          let s1 = upd i (\<lambda>g. g\<lparr>listeners := set_delete l (listeners g)\<rparr>) s in
          if isWritable (kind (sig_at s1 i)) then (Inr (), s1)
          else if listeners (sig_at s1 i) = [] then
            (case run_cleanups (unsubscribe d) (cleanups (sig_at s1 i)) s1 of
               (Inl e, s2) \<Rightarrow> (Inl e, s2)
             | (Inr u, s2) \<Rightarrow> (Inr (), upd i (\<lambda>g. g\<lparr>cleanups := []\<rparr>) s2))
          else (Inr (), s1))"

section \<open>Constructors\<close>

definition signal :: "'v \<Rightarrow> ('v \<Rightarrow> 'v \<Rightarrow> bool) option \<Rightarrow> 'v world \<Rightarrow> sid \<times> 'v world" where
  "signal defaultValue opts s =
     (let equal = (case opts of None \<Rightarrow> defaultEqual | Some e \<Rightarrow> e) in
      (length (sigs s),
       s\<lparr>sigs := sigs s @
          [\<lparr>val = defaultValue, listeners = [], cleanups = [], deps = [],
            equal_fn = equal, kind = Writable\<rparr>]\<rparr>))"

definition computed ::
  "nat \<Rightarrow> 'v computation \<Rightarrow> ('v \<Rightarrow> 'v \<Rightarrow> bool) option \<Rightarrow> ('v, sid) action" where
  "computed d computation opts s =
     (let equal = (case opts of None \<Rightarrow> defaultEqual | Some e \<Rightarrow> e);
          i = length (sigs s)
      in case exec (read d) i computation s of
           (Inl e, s1) \<Rightarrow> (Inl e, s1)
         | (Inr v, s1) \<Rightarrow>
             let (ds, s2) = scan (exec (read d) i computation) s1 in
             (Inr i,
              s2\<lparr>sigs := sigs s2 @
                  [\<lparr>val = v, listeners = [], cleanups = [], deps = ds,
                    equal_fn = equal, kind = Computed computation\<rparr>]\<rparr>))"

datatype 'v linkedArg =
    ArgSignal sid
  | ArgFunction "'v computation"
  | ArgConfig sid "'v \<Rightarrow> ('v \<times> 'v) option \<Rightarrow> 'v computation" "('v \<Rightarrow> 'v \<Rightarrow> bool) option"

definition linkedSignal :: "nat \<Rightarrow> 'v linkedArg \<Rightarrow> ('v, sid) action" where
  "linkedSignal d arg s =
     (let i = length (sigs s);
          (equal, srcFn, sources, computation, s0) =
            (case arg of
               ArgSignal a \<Rightarrow>
                 (defaultEqual, Read a Return, [a], (\<lambda>srcVal prev. Return srcVal), s)
             | ArgFunction f \<Rightarrow>
                 (let (ds, s') = scan (run (read d) f) s
                  in (defaultEqual, f, ds, (\<lambda>srcVal prev. f), s'))
             | ArgConfig source cfn opt \<Rightarrow>
                 ((case opt of None \<Rightarrow> defaultEqual | Some e \<Rightarrow> e),
                  Read source Return, [source], cfn, s))
      in case run (read d) srcFn s0 of
           (Inl e, s1) \<Rightarrow> (Inl e, s1)
         | (Inr srcVal, s1) \<Rightarrow>
             (case exec (read d) i (computation srcVal None) s1 of
                (Inl e, s2) \<Rightarrow> (Inl e, s2)
              | (Inr v, s2) \<Rightarrow>
                  (Inr i,
                   s2\<lparr>sigs := sigs s2 @
                       [\<lparr>val = v, listeners = [], cleanups = [], deps = sources,
                         equal_fn = equal, kind = Linked srcFn computation\<rparr>]\<rparr>)))"

definition empty_world :: "'v world" where
  "empty_world = \<lparr>sigs = [], contextStack = [], trace = []\<rparr>"

section \<open>Relations between worlds and scenario worlds\<close>

text \<open>
  \<open>same_frame\<close>: the heap has the same signals with the same listeners, cleanups,
  dependencies, equality policies and kinds, and the writable signals hold the same values.
\<close>

definition same_frame :: "'v world \<Rightarrow> 'v world \<Rightarrow> bool" where
  "same_frame s s' \<longleftrightarrow>
     length (sigs s') = length (sigs s) \<and>
     (\<forall>j < length (sigs s).
        listeners (sig_at s' j) = listeners (sig_at s j) \<and>
        cleanups (sig_at s' j) = cleanups (sig_at s j) \<and>
        deps (sig_at s' j) = deps (sig_at s j) \<and>
        equal_fn (sig_at s' j) = equal_fn (sig_at s j) \<and>
        kind (sig_at s' j) = kind (sig_at s j) \<and>
        (isWritable (kind (sig_at s j)) \<longrightarrow> val (sig_at s' j) = val (sig_at s j)))"

definition framed :: "('v world \<Rightarrow> 'v world \<Rightarrow> bool) \<Rightarrow> 'v world \<Rightarrow> 'v world \<Rightarrow> bool" where
  "framed R s s' \<longleftrightarrow> same_frame s s' \<and> R s s'"

text \<open>
  \<open>frames_kept\<close>: the tracking stack has the same depth and the same frames below the
  top, and the top frame has only gained members.
\<close>

definition frames_kept :: "'v world \<Rightarrow> 'v world \<Rightarrow> bool" where
  "frames_kept s s' \<longleftrightarrow>
     (case contextStack s of
        [] \<Rightarrow> contextStack s' = []
      | fr # below \<Rightarrow> (\<exists>fr'. contextStack s' = fr' # below \<and> set fr \<subseteq> set fr'))"

definition keeps_frames :: "('v, 'a) action \<Rightarrow> bool" where
  "keeps_frames f \<longleftrightarrow> (\<forall>s. frames_kept s (snd (f s)))"

text \<open>A script of calls, ended by the first one that throws.\<close>

primrec sequence :: "('v, unit) action list \<Rightarrow> ('v, unit) action" where
  "sequence [] s = (Inr (), s)"
| "sequence (a # as) s =
     (case a s of
        (Inl e, s') \<Rightarrow> (Inl e, s')
      | (Inr u, s') \<Rightarrow> sequence as s')"

definition within_two :: "int \<Rightarrow> int \<Rightarrow> bool" where
  "within_two a b = (\<bar>a - b\<bar> \<le> 2)"

definition watched_cell :: "int world" where
  "watched_cell =
     snd (subscribe observer (Suc 0) 0 (External 0) (snd (signal 0 (Some within_two) empty_world)))"

definition two_listeners :: "int world" where
  "two_listeners =
     \<lparr>sigs = [\<lparr>val = 0, listeners = [External 1, External 2], cleanups = [], deps = [],
               equal_fn = defaultEqual, kind = Writable\<rparr>],
      contextStack = [], trace = []\<rparr>"

definition open_frame :: "int world" where
  "open_frame =
     \<lparr>sigs = [\<lparr>val = 7, listeners = [], cleanups = [], deps = [],
               equal_fn = defaultEqual, kind = Writable\<rparr>],
      contextStack = [[5]], trace = []\<rparr>"

definition executions :: "sid \<Rightarrow> 'v world \<Rightarrow> nat" where
  "executions i s = length (filter (\<lambda>e. e = Executed i) (trace s))"

definition only_executions :: "'v world \<Rightarrow> 'v world \<Rightarrow> bool" where
  "only_executions s s' \<longleftrightarrow>
     length (sigs s') = length (sigs s) \<and>
     (\<exists>es. trace s' = trace s @ es \<and> (\<forall>e \<in> set es. \<exists>k < length (sigs s). e = Executed k))"


definition one_cell :: "int world" where
  "one_cell = snd (signal 1 None empty_world)"

definition doubled :: "int computation" where
  "doubled = Read 0 (\<lambda>v. Return (v * 2))"

datatype jsval = Num int | Str string | Obj "(string \<times> jsval) list"

definition user_cell :: "jsval world" where
  "user_cell = snd (signal (Num 1) None empty_world)"

definition blank_form :: "jsval computation" where
  "blank_form = Read 0 (\<lambda>userId. Return (Obj [(''id'', userId), (''name'', Str [])]))"

definition name_alice :: "jsval \<Rightarrow> jsval" where
  "name_alice f =
     (case f of
        Obj props \<Rightarrow>
          Obj (map (\<lambda>(k, x). if k = ''name'' then (k, Str ''Alice'') else (k, x)) props)
      | _ \<Rightarrow> f)"

definition cache_kept :: "'v world \<Rightarrow> 'v world \<Rightarrow> bool" where
  "cache_kept s s' \<longleftrightarrow>
     same_frame s s' \<and>
     (\<forall>j < length (sigs s). listeners (sig_at s j) \<noteq> [] \<longrightarrow> val (sig_at s' j) = val (sig_at s j))"

definition zero_cell :: "int world" where
  "zero_cell = snd (signal 0 None empty_world)"

definition guarded :: "int computation" where
  "guarded = Read 0 (\<lambda>v. if 1 < v then Throw else Return v)"

definition armed_world :: "int world" where
  "armed_world =
     \<lparr>sigs = [\<lparr>val = 2, listeners = [], cleanups = [], deps = [],
               equal_fn = defaultEqual, kind = Writable\<rparr>,
              \<lparr>val = 1, listeners = [], cleanups = [], deps = [0],
               equal_fn = defaultEqual, kind = Computed guarded\<rparr>],
      contextStack = [], trace = []\<rparr>"

definition coarse_world :: "int world" where
  "coarse_world =
     snd (set_signal observer 2 0 1
       (snd (subscribe observer 2 1 (External 7)
         (snd (computed 1 (Read 0 Return) (Some within_two) zero_cell)))))"

definition linked_pair :: "int world" where
  "linked_pair =
     snd (subscribe observer 2 1 (External 2)
       (snd (subscribe observer 2 1 (External 1)
         (snd (linkedSignal 1 (ArgSignal 0) one_cell)))))"

definition grows :: "'v world \<Rightarrow> 'v world \<Rightarrow> bool" where
  "grows s s' \<longleftrightarrow>
     length (sigs s') = length (sigs s) \<and>
     (\<forall>j < length (sigs s).
        deps (sig_at s' j) = deps (sig_at s j) \<and>
        kind (sig_at s' j) = kind (sig_at s j) \<and>
        equal_fn (sig_at s' j) = equal_fn (sig_at s j) \<and>
        set (listeners (sig_at s j)) \<subseteq> set (listeners (sig_at s' j)) \<and>
        set (cleanups (sig_at s j)) \<subseteq> set (cleanups (sig_at s' j)))"

definition doubled_inactive :: "int world" where
  "doubled_inactive = snd (computed 1 doubled None one_cell)"

definition held_by :: "'v world \<Rightarrow> (sid \<Rightarrow> sid set option) \<Rightarrow> sid \<Rightarrow> sid set" where
  "held_by s part x =
     (if x < length (sigs s) \<and> \<not> isWritable (kind (sig_at s x)) then
        (case part x of
           Some P \<Rightarrow> P
         | None \<Rightarrow> if listeners (sig_at s x) = [] then {} else set (deps (sig_at s x)))
      else {})"

definition wired :: "'v world \<Rightarrow> (sid \<Rightarrow> sid set option) \<Rightarrow> bool" where
  "wired s part \<longleftrightarrow>
     (\<forall>j < length (sigs s). \<forall>e \<in> set (deps (sig_at s j)). e < j) \<and>
     (\<forall>j < length (sigs s). distinct (deps (sig_at s j)) \<and> distinct (listeners (sig_at s j))) \<and>
     (\<forall>j P. part j = Some P \<longrightarrow>
        j < length (sigs s) \<and> \<not> isWritable (kind (sig_at s j)) \<and>
        listeners (sig_at s j) = [] \<and> P \<subseteq> set (deps (sig_at s j))) \<and>
     (\<forall>e < length (sigs s). \<forall>x. PassUpdate x \<in> set (listeners (sig_at s e)) \<longleftrightarrow> e \<in> held_by s part x) \<and>
     (\<forall>j < length (sigs s). \<not> isWritable (kind (sig_at s j)) \<longrightarrow> part j = None \<longrightarrow>
        cleanups (sig_at s j) =
          (if listeners (sig_at s j) = [] then []
           else map (\<lambda>e. Unsubscribe e (PassUpdate j)) (deps (sig_at s j))))"

definition same_skeleton :: "'v world \<Rightarrow> 'v world \<Rightarrow> bool" where
  "same_skeleton s s' \<longleftrightarrow>
     length (sigs s') = length (sigs s) \<and>
     (\<forall>j < length (sigs s).
        listeners (sig_at s' j) = listeners (sig_at s j) \<and>
        cleanups (sig_at s' j) = cleanups (sig_at s j) \<and>
        deps (sig_at s' j) = deps (sig_at s j) \<and>
        isWritable (kind (sig_at s' j)) = isWritable (kind (sig_at s j)))"

definition part_add :: "(sid \<Rightarrow> sid set option) \<Rightarrow> sid \<Rightarrow> listener \<Rightarrow> (sid \<Rightarrow> sid set option)" where
  "part_add part j l =
     (case l of
        External m \<Rightarrow> part
      | PassUpdate p \<Rightarrow> (case part p of None \<Rightarrow> part | Some P \<Rightarrow> part(p \<mapsto> insert j P)))"

definition part_del :: "(sid \<Rightarrow> sid set option) \<Rightarrow> sid \<Rightarrow> listener \<Rightarrow> (sid \<Rightarrow> sid set option)" where
  "part_del part j l =
     (case l of
        External m \<Rightarrow> part
      | PassUpdate p \<Rightarrow> (case part p of None \<Rightarrow> part | Some P \<Rightarrow> part(p \<mapsto> P - {j})))"

definition addable :: "'v world \<Rightarrow> (sid \<Rightarrow> sid set option) \<Rightarrow> sid \<Rightarrow> listener \<Rightarrow> bool" where
  "addable s part j l =
     (case l of
        External m \<Rightarrow> True
      | PassUpdate p \<Rightarrow> (\<exists>P. part p = Some P \<and> j \<in> set (deps (sig_at s p)) \<and> j \<notin> P))"

definition removable :: "(sid \<Rightarrow> sid set option) \<Rightarrow> sid \<Rightarrow> listener \<Rightarrow> bool" where
  "removable part j l =
     (case l of
        External m \<Rightarrow> True
      | PassUpdate p \<Rightarrow> (\<exists>P. part p = Some P \<and> j \<in> P))"

definition sub_post ::
  "'v world \<Rightarrow> (sid \<Rightarrow> sid set option) \<Rightarrow> sid \<Rightarrow> listener \<Rightarrow> 'v world \<Rightarrow> bool" where
  "sub_post s part j l s' \<longleftrightarrow>
     wired s' (part_add part j l) \<and>
     listeners (sig_at s' j) = set_add l (listeners (sig_at s j)) \<and>
     (\<forall>k < length (sigs s). j < k \<longrightarrow> cleanups (sig_at s' k) = cleanups (sig_at s k)) \<and>
     (\<forall>k < length (sigs s). \<forall>m.
        External m \<in> set (listeners (sig_at s' k)) \<longleftrightarrow>
        External m \<in> set (listeners (sig_at s k)) \<or> (k = j \<and> l = External m))"

definition unsub_post ::
  "'v world \<Rightarrow> (sid \<Rightarrow> sid set option) \<Rightarrow> sid \<Rightarrow> listener \<Rightarrow> 'v world \<Rightarrow> bool" where
  "unsub_post s part j l s' \<longleftrightarrow>
     wired s' (part_del part j l) \<and>
     length (sigs s') = length (sigs s) \<and>
     (\<forall>k < length (sigs s).
        deps (sig_at s' k) = deps (sig_at s k) \<and> kind (sig_at s' k) = kind (sig_at s k)) \<and>
     (\<forall>k < length (sigs s). \<forall>m.
        External m \<in> set (listeners (sig_at s' k)) \<longleftrightarrow>
        External m \<in> set (listeners (sig_at s k)) \<and> \<not> (k = j \<and> l = External m))"

definition calls_to :: "nat \<Rightarrow> 'v world \<Rightarrow> 'v event list" where
  "calls_to n s = filter (\<lambda>e. \<exists>x. e = Called n x) (trace s)"

definition unheld :: "nat \<Rightarrow> 'v world \<Rightarrow> bool" where
  "unheld n s \<longleftrightarrow> (\<forall>k < length (sigs s). External n \<notin> set (listeners (sig_at s k)))"

definition deaf :: "nat \<Rightarrow> 'v world \<Rightarrow> 'v world \<Rightarrow> bool" where
  "deaf n s s' \<longleftrightarrow> (unheld n s \<longrightarrow> unheld n s' \<and> calls_to n s' = calls_to n s)"

definition doubled_active :: "int world" where
  "doubled_active =
     \<lparr>sigs = [\<lparr>val = 1, listeners = [PassUpdate 1], cleanups = [], deps = [],
               equal_fn = defaultEqual, kind = Writable\<rparr>,
              \<lparr>val = 2, listeners = [External 7], cleanups = [Unsubscribe 0 (PassUpdate 1)],
               deps = [0], equal_fn = defaultEqual, kind = Computed doubled\<rparr>],
      contextStack = [], trace = [Executed 1, Executed 1, Executed 1, Called 7 2]\<rparr>"

definition doubled_released :: "int world" where
  "doubled_released =
     \<lparr>sigs = [\<lparr>val = 1, listeners = [], cleanups = [], deps = [],
               equal_fn = defaultEqual, kind = Writable\<rparr>,
              \<lparr>val = 2, listeners = [], cleanups = [],
               deps = [0], equal_fn = defaultEqual, kind = Computed doubled\<rparr>],
      contextStack = [], trace = [Executed 1, Executed 1, Executed 1, Called 7 2]\<rparr>"

text \<open>
  \<open>tracked\<close>: the heap and the tracking stack keep their sizes, and a top frame that
  holds distinct signals of the heap still does.
\<close>

definition frames_ok :: "'v world \<Rightarrow> bool" where
  "frames_ok s \<longleftrightarrow>
     (case contextStack s of
        [] \<Rightarrow> True
      | fr # below \<Rightarrow> distinct fr \<and> (\<forall>e \<in> set fr. e < length (sigs s)))"

definition tracked :: "'v world \<Rightarrow> 'v world \<Rightarrow> bool" where
  "tracked s s' \<longleftrightarrow>
     length (sigs s') = length (sigs s) \<and>
     length (contextStack s') = length (contextStack s) \<and>
     (frames_ok s \<longrightarrow> frames_ok s')"

text \<open>
  The worlds built from the empty one by the operations of the library, each
  \<open>subscribe\<close> and \<open>unsubscribe\<close> of an outside listener having returned normally.
\<close>

inductive reachable :: "'v world \<Rightarrow> bool" where
  start: "reachable empty_world"
| new_signal: "reachable s \<Longrightarrow> reachable (snd (signal v opts s))"
| new_computed: "reachable s \<Longrightarrow> reachable (snd (computed d c opts s))"
| new_linked: "reachable s \<Longrightarrow> reachable (snd (linkedSignal d arg s))"
| do_read: "reachable s \<Longrightarrow> reachable (snd (read d i s))"
| do_set: "reachable s \<Longrightarrow> reachable (snd (set_signal observer d i v s))"
| do_update: "reachable s \<Longrightarrow> reachable (snd (update observer d i fn s))"
| do_subscribe: "reachable s \<Longrightarrow> subscribe observer d i (External n) s = (Inr c, s') \<Longrightarrow> reachable s'"
| do_unsubscribe:
    "reachable s \<Longrightarrow> unsubscribe d (Unsubscribe i (External n)) s = (Inr (), s') \<Longrightarrow> reachable s'"

text \<open>
  The listeners of a scenario, by call depth: listener 1 is
  \<open>v => { if (v === 1) sig.set(2) }\<close> on signal 0, every other listener only looks.
\<close>

primrec rewriter :: "nat \<Rightarrow> nat \<Rightarrow> int \<Rightarrow> (int, unit) action" where
  "rewriter 0 n v s = (Inl RangeError, s)"
| "rewriter (Suc k) n v s =
     (if n = 1 \<and> v = 1 then set_signal (rewriter k) (Suc k) 0 2 s else (Inr (), s))"

text \<open>
  \<open>reads_in allow b c\<close>: the computation reads only signals created before \<open>b\<close>, and throws
  only if \<open>allow\<close>. In a \<open>layered\<close> world every signal depends on and reads only signals
  created before it, so a read or an activation of signal \<open>i\<close> nests at most \<open>i\<close> calls deep.
  \<open>fine allow r\<close>: the result is a value, or the throw of a computation where allowed.
\<close>

primrec reads_in :: "bool \<Rightarrow> nat \<Rightarrow> 'v computation \<Rightarrow> bool" where
  "reads_in allow b (Return v) = True"
| "reads_in allow b Throw = allow"
| "reads_in allow b (Read j k) = (j < b \<and> (\<forall>v. reads_in allow b (k v)))"

definition kind_ok :: "bool \<Rightarrow> nat \<Rightarrow> 'v kind \<Rightarrow> bool" where
  "kind_ok allow j k =
     (case k of
        Writable \<Rightarrow> True
      | Computed computation \<Rightarrow> reads_in allow j computation
      | Linked srcFn computation \<Rightarrow>
          reads_in allow j srcFn \<and> (\<forall>srcVal prev. reads_in allow j (computation srcVal prev)))"

definition layered :: "bool \<Rightarrow> 'v world \<Rightarrow> bool" where
  "layered allow s \<longleftrightarrow>
     (\<forall>j < length (sigs s).
        (\<forall>e \<in> set (deps (sig_at s j)). e < j) \<and> kind_ok allow j (kind (sig_at s j)))"

definition fine :: "bool \<Rightarrow> error + 'a \<Rightarrow> bool" where
  "fine allow r = (case r of Inr x \<Rightarrow> True | Inl e \<Rightarrow> allow \<and> e = Thrown)"

text \<open>
  \<open>kept b\<close>: nothing but cached values and the trace has changed, and from signal \<open>b\<close> on
  neither the values nor the numbers of executions have.
\<close>

definition kept :: "nat \<Rightarrow> 'v world \<Rightarrow> 'v world \<Rightarrow> bool" where
  "kept b s s' \<longleftrightarrow>
     same_frame s s' \<and>
     (\<forall>k < length (sigs s). b \<le> k \<longrightarrow> val (sig_at s' k) = val (sig_at s k)) \<and>
     (\<forall>k. b \<le> k \<longrightarrow> executions k s' = executions k s)"

text \<open>
  \<open>beyond i\<close>: listeners and cleanups were only added, and the signals after \<open>i\<close> and
  their numbers of executions are as before. \<open>internal l i s\<close>: the listener is an outside
  one, or the handler of a later signal that has no listener yet.
\<close>

definition beyond :: "nat \<Rightarrow> 'v world \<Rightarrow> 'v world \<Rightarrow> bool" where
  "beyond i s s' \<longleftrightarrow>
     grows s s' \<and>
     (\<forall>k < length (sigs s). i < k \<longrightarrow> sig_at s' k = sig_at s k) \<and>
     (\<forall>k. i < k \<longrightarrow> executions k s' = executions k s)"

definition internal :: "listener \<Rightarrow> sid \<Rightarrow> 'v world \<Rightarrow> bool" where
  "internal l i s =
     (case l of
        External n \<Rightarrow> True
      | PassUpdate p \<Rightarrow> i < p \<and> p < length (sigs s) \<and> listeners (sig_at s p) = [])"




text \<open>
  The scenario \<open>a = signal(1); c = computed(() => { if (a() > 1) throw ...; return a() })\<close>,
  then \<open>a.set(2)\<close>; \<open>leaked\<close> is the world after a \<open>c.subscribe\<close> that threw and \<open>a.set(1)\<close>.
\<close>

definition guarded_cell :: "int world" where
  "guarded_cell = snd (set_signal observer 2 0 2 (snd (computed 1 guarded None one_cell)))"

definition leaked :: "int world" where
  "leaked = snd (set_signal observer 2 0 1 (snd (subscribe observer 2 1 (External 7) guarded_cell)))"

text \<open>
  \<open>cleanups_below\<close>: the cleanups of a derived signal unsubscribe from signals created
  before it.
\<close>

definition cleanups_below :: "'v world \<Rightarrow> bool" where
  "cleanups_below s \<longleftrightarrow>
     (\<forall>j < length (sigs s). \<not> isWritable (kind (sig_at s j)) \<longrightarrow>
        (\<forall>c \<in> set (cleanups (sig_at s j)). \<exists>e l. c = Unsubscribe e l \<and> e < j))"

definition unsub_ok :: "'v world \<Rightarrow> 'v world \<Rightarrow> bool" where
  "unsub_ok s s' \<longleftrightarrow>
     cleanups_below s' \<and> length (sigs s') = length (sigs s) \<and>
     (\<forall>k < length (sigs s). kind (sig_at s' k) = kind (sig_at s k))"

text \<open>
  \<open>undisturbed i\<close>: no subscription has changed and the writable signal \<open>i\<close> holds the
  value it held. \<open>calm i ext\<close>: the listeners' code does not write signal \<open>i\<close> and
  changes no subscription.
\<close>

definition undisturbed :: "sid \<Rightarrow> 'v world \<Rightarrow> 'v world \<Rightarrow> bool" where
  "undisturbed i s s' \<longleftrightarrow>
     same_skeleton s s' \<and>
     (i < length (sigs s) \<and> isWritable (kind (sig_at s i)) \<longrightarrow> val (sig_at s' i) = val (sig_at s i))"

definition calm :: "sid \<Rightarrow> (nat \<Rightarrow> 'v \<Rightarrow> ('v, unit) action) \<Rightarrow> bool" where
  "calm i ext \<longleftrightarrow> (\<forall>n v w. undisturbed i w (snd (ext n v w)))"

section \<open>Basic facts about the heap\<close>

lemma invoke_observer:
  "invoke observer pu l v s =
     (case l of
        External n \<Rightarrow> (Inr (), emit (Called n v) s)
      | PassUpdate j \<Rightarrow> pu j s)"
  by (simp add: invoke_def observer_def split: listener.splits)

lemma length_sigs_upd [simp]: "length (sigs (upd i f s)) = length (sigs s)"
  by (simp add: upd_def)

lemma contextStack_upd [simp]: "contextStack (upd i f s) = contextStack s"
  by (simp add: upd_def)

lemma trace_upd [simp]: "trace (upd i f s) = trace s"
  by (simp add: upd_def)

lemma sig_at_upd:
  "j < length (sigs s) \<Longrightarrow> sig_at (upd i f s) j = (if j = i then f (sig_at s i) else sig_at s j)"
  by (simp add: upd_def sig_at_def)

lemma sig_at_upd_same [simp]: "i < length (sigs s) \<Longrightarrow> sig_at (upd i f s) i = f (sig_at s i)"
  by (simp add: sig_at_upd)

lemma sig_at_upd_other [simp]: "j \<noteq> i \<Longrightarrow> sig_at (upd i f s) j = sig_at s j"
  by (simp add: upd_def sig_at_def)

lemma sigs_emit [simp]: "sigs (emit e s) = sigs s"
  by (simp add: emit_def)

lemma sig_at_emit [simp]: "sig_at (emit e s) j = sig_at s j"
  by (simp add: emit_def sig_at_def)

lemma contextStack_emit [simp]: "contextStack (emit e s) = contextStack s"
  by (simp add: emit_def)

lemma trace_emit [simp]: "trace (emit e s) = trace s @ [e]"
  by (simp add: emit_def)

lemma sigs_register [simp]: "sigs (register i s) = sigs s"
  by (simp add: register_def split: list.splits)

lemma sig_at_register [simp]: "sig_at (register i s) j = sig_at s j"
  by (simp add: sig_at_def)

lemma trace_register [simp]: "trace (register i s) = trace s"
  by (simp add: register_def split: list.splits)

lemma same_frame_refl [simp]: "same_frame s s"
  by (simp add: same_frame_def)

lemma same_frame_trans: "same_frame s s' \<Longrightarrow> same_frame s' s'' \<Longrightarrow> same_frame s s''"
  by (simp add: same_frame_def)

lemma same_frame_emit [simp]: "same_frame s (emit e s)"
  by (simp add: same_frame_def)

lemma same_frame_register [simp]: "same_frame s (register i s)"
  by (simp add: same_frame_def)

lemma same_frame_upd_val:
  "\<not> isWritable (kind (sig_at s i)) \<Longrightarrow> same_frame s (upd i (\<lambda>g. g\<lparr>val := v\<rparr>) s)"
  by (auto simp: same_frame_def sig_at_upd)

lemma run_same_frame:
  assumes "\<And>j s. same_frame s (snd (rd j s))"
  shows "same_frame s (snd (run rd c s))"
proof (induction c arbitrary: s)
  case (Read i k)
  show ?case
  proof (cases "rd i s")
    case (Pair r s')
    have a: "same_frame s s'" using assms[of s i] Pair by simp
    show ?thesis
    proof (cases r)
      case (Inl e) then show ?thesis using Pair a by simp
    next
      case (Inr v)
      have "same_frame s' (snd (run rd (k v) s'))" using Read by blast
      then show ?thesis using Pair Inr a by (auto intro: same_frame_trans)
    qed
  qed
qed simp_all

lemma exec_same_frame:
  assumes "\<And>j s. same_frame s (snd (rd j s))"
  shows "same_frame s (snd (exec rd i c s))"
  unfolding exec_def
  by (rule same_frame_trans[OF same_frame_emit]) (rule run_same_frame, rule assms)

lemma derive_same_frame:
  assumes "\<And>j s. same_frame s (snd (rd j s))"
  shows "same_frame s (snd (derive rd i f c s))"
proof (cases "run rd f s")
  case (Pair r s1)
  have "same_frame s (snd (run rd f s))" by (rule run_same_frame) (rule assms)
  then have a: "same_frame s s1" using Pair by simp
  have e: "\<And>c. same_frame s1 (snd (exec rd i c s1))" by (rule exec_same_frame) (rule assms)
  show ?thesis
  proof (cases r)
    case (Inl e) then show ?thesis using Pair a by (simp add: derive_def)
  next
    case (Inr v)
    then show ?thesis using Pair a e
      by (auto simp: derive_def intro: same_frame_trans)
  qed
qed

lemma recompute_same_frame:
  assumes "\<And>j s. same_frame s (snd (rd j s))"
  shows "same_frame s (snd (recompute rd i k s))"
proof (cases k)
  case Writable then show ?thesis by (simp add: recompute_def)
next
  case (Computed c)
  have "same_frame s (snd (exec rd i c s))" by (rule exec_same_frame) (rule assms)
  then show ?thesis using Computed by (simp add: recompute_def)
next
  case (Linked f c)
  have "same_frame s (snd (derive rd i f c s))" by (rule derive_same_frame) (rule assms)
  then show ?thesis using Linked by (simp add: recompute_def)
qed

lemma read_same_frame: "same_frame s (snd (read d i s))"
proof (induction d arbitrary: i s)
  case 0 show ?case by simp
next
  case (Suc d)
  define s1 where "s1 = (if isContextOpen s then register i s else s)"
  have a: "same_frame s s1" by (simp add: s1_def)
  show ?case
  proof (cases "length (sigs s) \<le> i")
    case True then show ?thesis by simp
  next
    case inr: False
    show ?thesis
    proof (cases "\<not> isWritable (kind (sig_at s1 i)) \<and> listeners (sig_at s1 i) = []")
      case False
      then show ?thesis using inr a by (auto simp: s1_def Let_def)
    next
      case True
      obtain r s2 where rc: "recompute (read d) i (kind (sig_at s1 i)) s1 = (r, s2)"
        by (cases "recompute (read d) i (kind (sig_at s1 i)) s1")
      have "same_frame s1 (snd (recompute (read d) i (kind (sig_at s1 i)) s1))"
        by (rule recompute_same_frame) (rule Suc)
      then have b: "same_frame s1 s2" using rc by simp
      show ?thesis
      proof (cases r)
        case (Inl e)
        then show ?thesis using inr True rc same_frame_trans[OF a b]
          by (simp add: s1_def[symmetric] Let_def)
      next
        case (Inr v)
        have "i < length (sigs s1)" using inr a by (simp add: same_frame_def)
        then have k: "\<not> isWritable (kind (sig_at s2 i))" using True b by (simp add: same_frame_def)
        have "same_frame s (upd i (\<lambda>g. g\<lparr>val := v\<rparr>) s2)"
          using same_frame_trans[OF same_frame_trans[OF a b] same_frame_upd_val[OF k]] .
        then show ?thesis using inr True rc Inr
          by (simp add: s1_def[symmetric] Let_def)
      qed
    qed
  qed
qed

lemma run_rel:
  assumes refl: "\<And>s. R s s"
    and trans: "\<And>s s' s''. R s s' \<Longrightarrow> R s' s'' \<Longrightarrow> R s s''"
    and rd: "\<And>j s. R s (snd (rd j s))"
  shows "R s (snd (run rd c s))"
proof (induction c arbitrary: s)
  case (Return v) show ?case by (simp add: refl)
next
  case Throw show ?case by (simp add: refl)
next
  case (Read i k)
  obtain r s' where p: "rd i s = (r, s')" by (cases "rd i s")
  have a: "R s s'" using rd[of s i] p by simp
  show ?case
  proof (cases r)
    case (Inl e) then show ?thesis using p a by simp
  next
    case (Inr v)
    have "R s' (snd (run rd (k v) s'))" using Read by blast
    then show ?thesis using p Inr a trans by auto
  qed
qed

lemma exec_rel:
  assumes refl: "\<And>s. R s s"
    and trans: "\<And>s s' s''. R s s' \<Longrightarrow> R s' s'' \<Longrightarrow> R s s''"
    and rd: "\<And>j s. R s (snd (rd j s))"
    and em: "R s (emit (Executed i) s)"
  shows "R s (snd (exec rd i c s))"
proof -
  have "R (emit (Executed i) s) (snd (run rd c (emit (Executed i) s)))"
    by (rule run_rel) (rule refl, erule trans, assumption, rule rd)
  then show ?thesis using em trans by (auto simp: exec_def)
qed

lemma derive_rel:
  assumes refl: "\<And>s. R s s"
    and trans: "\<And>s s' s''. R s s' \<Longrightarrow> R s' s'' \<Longrightarrow> R s s''"
    and rd: "\<And>j s. R s (snd (rd j s))"
    and sf: "\<And>j s. same_frame s (snd (rd j s))"
    and em: "\<And>s'. length (sigs s') = length (sigs s) \<Longrightarrow> R s' (emit (Executed i) s')"
  shows "R s (snd (derive rd i f c s))"
proof -
  obtain r s1 where p: "run rd f s = (r, s1)" by (cases "run rd f s")
  have "R s (snd (run rd f s))"
    by (rule run_rel) (rule refl, erule trans, assumption, rule rd)
  then have a: "R s s1" using p by simp
  have "same_frame s (snd (run rd f s))" by (rule run_same_frame) (rule sf)
  then have len: "length (sigs s1) = length (sigs s)" using p by (simp add: same_frame_def)
  show ?thesis
  proof (cases r)
    case (Inl e) then show ?thesis using p a by (simp add: derive_def)
  next
    case (Inr v)
    have "R s1 (snd (exec rd i (c v (Some (v, val (sig_at s1 i)))) s1))"
      by (rule exec_rel) (rule refl, erule trans, assumption, rule rd, rule em[OF len])
    then show ?thesis using p Inr a trans by (auto simp: derive_def)
  qed
qed

lemma recompute_rel:
  assumes refl: "\<And>s. R s s"
    and trans: "\<And>s s' s''. R s s' \<Longrightarrow> R s' s'' \<Longrightarrow> R s s''"
    and rd: "\<And>j s. R s (snd (rd j s))"
    and sf: "\<And>j s. same_frame s (snd (rd j s))"
    and em: "\<And>s'. length (sigs s') = length (sigs s) \<Longrightarrow> R s' (emit (Executed i) s')"
  shows "R s (snd (recompute rd i k s))"
proof (cases k)
  case Writable then show ?thesis by (simp add: recompute_def refl)
next
  case (Computed c)
  have "R s (snd (exec rd i c s))"
    by (rule exec_rel) (rule refl, erule trans, assumption, rule rd, rule em, simp)
  then show ?thesis using Computed by (simp add: recompute_def)
next
  case (Linked f c)
  have "R s (snd (derive rd i f c s))"
    by (rule derive_rel) (rule refl, erule trans, assumption, rule rd, rule sf, erule em)
  then show ?thesis using Linked by (simp add: recompute_def)
qed

lemma read_rel:
  assumes refl: "\<And>s. R s s"
    and trans: "\<And>s s' s''. R s s' \<Longrightarrow> R s' s'' \<Longrightarrow> R s s''"
    and em: "\<And>i s. i < length (sigs s) \<Longrightarrow> R s (emit (Executed i) s)"
    and reg: "\<And>i s. R s (register i s)"
    and uv: "\<And>i v s. i < length (sigs s) \<Longrightarrow> \<not> isWritable (kind (sig_at s i)) \<Longrightarrow>
               listeners (sig_at s i) = [] \<Longrightarrow> R s (upd i (\<lambda>g. g\<lparr>val := v\<rparr>) s)"
  shows "R s (snd (read d i s))"
proof (induction d arbitrary: i s)
  case 0 show ?case by (simp add: refl)
next
  case (Suc d)
  define s1 where "s1 = (if isContextOpen s then register i s else s)"
  have a: "R s s1" by (simp add: s1_def refl reg)
  have len1: "length (sigs s1) = length (sigs s)" by (simp add: s1_def)
  show ?case
  proof (cases "length (sigs s) \<le> i")
    case True then show ?thesis by (simp add: refl)
  next
    case inr: False
    show ?thesis
    proof (cases "\<not> isWritable (kind (sig_at s1 i)) \<and> listeners (sig_at s1 i) = []")
      case False
      then show ?thesis using inr a by (auto simp: s1_def Let_def)
    next
      case True
      obtain r s2 where rc: "recompute (read d) i (kind (sig_at s1 i)) s1 = (r, s2)"
        by (cases "recompute (read d) i (kind (sig_at s1 i)) s1")
      have "R s1 (snd (recompute (read d) i (kind (sig_at s1 i)) s1))"
        by (rule recompute_rel)
           (rule refl, erule trans, assumption, rule Suc, rule read_same_frame, rule em,
            use inr len1 in simp)
      then have b: "R s1 s2" using rc by simp
      have "same_frame s1 (snd (recompute (read d) i (kind (sig_at s1 i)) s1))"
        by (rule recompute_same_frame) (rule read_same_frame)
      then have sf: "same_frame s1 s2" using rc by simp
      show ?thesis
      proof (cases r)
        case (Inl e)
        then show ?thesis using inr True rc trans[OF a b]
          by (simp add: s1_def[symmetric] Let_def)
      next
        case (Inr v)
        have i1: "i < length (sigs s1)" using inr len1 by simp
        then have i2: "i < length (sigs s2)" and k: "\<not> isWritable (kind (sig_at s2 i))"
          and l: "listeners (sig_at s2 i) = []"
          using True sf by (simp_all add: same_frame_def)
        have "R s (upd i (\<lambda>g. g\<lparr>val := v\<rparr>) s2)"
          using trans[OF trans[OF a b] uv[OF i2 k l]] .
        then show ?thesis using inr True rc Inr
          by (simp add: s1_def[symmetric] Let_def)
      qed
    qed
  qed
qed

lemma frames_kept_refl: "frames_kept s s"
  by (simp add: frames_kept_def split: list.splits)

lemma frames_kept_trans: "frames_kept s s' \<Longrightarrow> frames_kept s' s'' \<Longrightarrow> frames_kept s s''"
  by (auto simp: frames_kept_def split: list.splits)

lemma frames_kept_same: "contextStack s' = contextStack s \<Longrightarrow> frames_kept s s'"
  by (simp add: frames_kept_def split: list.splits)

lemma frames_kept_register: "frames_kept s (register i s)"
  by (auto simp: frames_kept_def register_def set_add_def split: list.splits)

lemma read_frames_kept: "frames_kept s (snd (read d i s))"
  by (rule read_rel)
     (rule frames_kept_refl, erule frames_kept_trans, assumption,
      simp_all add: frames_kept_same frames_kept_register)

lemma recompute_Inr_derived:
  "recompute rd i k s = (Inr v, s') \<Longrightarrow> \<not> isWritable k"
  by (cases k) (simp_all add: recompute_def isWritable_def)

lemma notify_rel:
  assumes refl: "\<And>s. R s s"
    and trans: "\<And>s s' s''. R s s' \<Longrightarrow> R s' s'' \<Longrightarrow> R s s''"
    and call: "\<And>l v s. l \<in> set ls \<Longrightarrow> R s0 s \<Longrightarrow> R s (snd (call l v s))"
    and start: "R s0 s"
  shows "R s (snd (notify call arg ls s))"
  using call start
proof (induction ls arbitrary: s)
  case Nil show ?case by (simp add: refl)
next
  case (Cons l ls)
  obtain r s' where p: "call l (arg s) s = (r, s')" by (cases "call l (arg s) s")
  have a: "R s s'" using Cons.prems(1)[of l s "arg s"] Cons.prems(2) p by simp
  show ?case
  proof (cases r)
    case (Inl e) then show ?thesis using p a by simp
  next
    case (Inr u)
    have "R s0 s'" using trans[OF Cons.prems(2) a] .
    then have "R s' (snd (notify call arg ls s'))"
      using Cons.IH[of s'] Cons.prems(1) by simp
    then show ?thesis using p Inr a trans by auto
  qed
qed

lemma passUpdate_rel:
  assumes refl: "\<And>s. R s s"
    and trans: "\<And>s s' s''. R s s' \<Longrightarrow> R s' s'' \<Longrightarrow> R s s''"
    and em: "\<And>i s. i < length (sigs s) \<Longrightarrow> R s (emit (Executed i) s)"
    and reg: "\<And>i s. R s (register i s)"
    and uv: "\<And>i v s. i < length (sigs s) \<Longrightarrow> \<not> isWritable (kind (sig_at s i)) \<Longrightarrow>
               R s (upd i (\<lambda>g. g\<lparr>val := v\<rparr>) s)"
    and called: "\<And>n v j s. j < length (sigs s) \<Longrightarrow> External n \<in> set (listeners (sig_at s j)) \<Longrightarrow>
               R s (emit (Called n v) s)"
  shows "framed R s (snd (passUpdate observer d i s))"
proof (induction d arbitrary: i s)
  case 0 show ?case by (simp add: framed_def refl)
next
  case (Suc d)
  have frefl: "\<And>s. framed R s s" by (simp add: framed_def refl)
  have ftrans: "\<And>s s' s''. framed R s s' \<Longrightarrow> framed R s' s'' \<Longrightarrow> framed R s s''"
    using trans same_frame_trans unfolding framed_def by blast
  show ?case
  proof (cases "length (sigs s) \<le> i \<or> listeners (sig_at s i) = []")
    case True then show ?thesis by (auto simp: frefl)
  next
    case False
    then have inr: "i < length (sigs s)" and act: "listeners (sig_at s i) \<noteq> []" by auto
    obtain r s1 where rc: "recompute (read d) i (kind (sig_at s i)) s = (r, s1)"
      by (cases "recompute (read d) i (kind (sig_at s i)) s")
    have rdR: "\<And>j w. R w (snd (read d j w))"
      by (rule read_rel) (rule refl, erule trans, assumption, erule em, rule reg, erule uv, assumption)
    have emR: "\<And>w. length (sigs w) = length (sigs s) \<Longrightarrow> R w (emit (Executed i) w)"
      using em inr by simp
    have "R s (snd (recompute (read d) i (kind (sig_at s i)) s))"
      by (rule recompute_rel)
         (rule refl, erule trans, assumption, rule rdR, rule read_same_frame, erule emR)
    then have b: "R s s1" using rc by simp
    have "same_frame s (snd (recompute (read d) i (kind (sig_at s i)) s))"
      by (rule recompute_same_frame) (rule read_same_frame)
    then have sf: "same_frame s s1" using rc by simp
    have f1: "framed R s s1" using b sf by (simp add: framed_def)
    show ?thesis
    proof (cases r)
      case (Inl e)
      then show ?thesis using inr act rc f1 by simp
    next
      case (Inr nxt)
      have nw: "\<not> isWritable (kind (sig_at s i))" using rc Inr recompute_Inr_derived[of "read d" i "kind (sig_at s i)" s nxt s1] by simp
      have i1: "i < length (sigs s1)" and k1: "\<not> isWritable (kind (sig_at s1 i))"
        using inr nw sf by (simp_all add: same_frame_def)
      define s2 where "s2 = upd i (\<lambda>g. g\<lparr>val := nxt\<rparr>) s1"
      have f2: "framed R s1 s2"
        unfolding s2_def framed_def using uv[OF i1 k1] same_frame_upd_val[OF k1] by simp
      have i2: "i < length (sigs s2)" using i1 by (simp add: s2_def)
      have inv: "framed R w (snd (invoke observer (passUpdate observer d) l v w))"
        if "l \<in> set (listeners (sig_at s2 i))" "framed R s2 w" for l v w
      proof (cases l)
        case (PassUpdate j)
        then show ?thesis using Suc.IH[of w j] by (simp add: invoke_observer)
      next
        case (External n)
        have "length (sigs w) = length (sigs s2)"
          and "listeners (sig_at w i) = listeners (sig_at s2 i)"
          using that(2) i2 by (simp_all add: framed_def same_frame_def)
        then have "R w (emit (Called n v) w)"
          using called[of i w n v] that(1) External i2 by simp
        then show ?thesis using External by (simp add: invoke_observer framed_def)
      qed
      have "framed R s2 (snd (notify (invoke observer (passUpdate observer d)) (\<lambda>w. val (sig_at w i))
              (listeners (sig_at s2 i)) s2))"
        by (rule notify_rel[where ?s0.0 = s2])
           (rule frefl, erule ftrans, assumption, erule inv, assumption, rule frefl)
      then have "framed R s (snd (notify (invoke observer (passUpdate observer d)) (\<lambda>w. val (sig_at w i))
              (listeners (sig_at s2 i)) s2))"
        using ftrans[OF ftrans[OF f1 f2]] by blast
      then show ?thesis using inr act rc Inr f1
        by (simp add: s2_def[symmetric] Let_def)
    qed
  qed
qed

lemma passUpdate_same_frame: "same_frame s (snd (passUpdate observer d i s))"
proof -
  have "framed (\<lambda>a b. True) s (snd (passUpdate observer d i s))"
    by (rule passUpdate_rel) simp_all
  then show ?thesis by (simp add: framed_def)
qed

lemma invoke_same_frame: "same_frame s (snd (invoke observer (passUpdate observer d) l v s))"
  by (cases l) (simp_all add: invoke_observer passUpdate_same_frame)

lemma notify_same_frame:
  "same_frame s (snd (notify (invoke observer (passUpdate observer d)) arg ls s))"
  by (rule notify_rel[where ?s0.0 = s and R = same_frame])
     (simp_all add: invoke_same_frame, erule same_frame_trans, assumption)

lemma set_signal_equal:
  "i < length (sigs s) \<Longrightarrow> isWritable (kind (sig_at s i)) \<Longrightarrow>
   equal_fn (sig_at s i) (val (sig_at s i)) v \<Longrightarrow> set_signal ext d i v s = (Inr (), s)"
  by (auto simp: set_signal_def isWritable_def split: kind.splits)

lemma update_equal:
  "i < length (sigs s) \<Longrightarrow> isWritable (kind (sig_at s i)) \<Longrightarrow>
   equal_fn (sig_at s i) (val (sig_at s i)) (fn (val (sig_at s i))) \<Longrightarrow>
   update ext d i fn s = (Inr (), s)"
  by (simp add: update_def set_signal_equal)

lemma sequence_silent:
  assumes "i < length (sigs s)" "isWritable (kind (sig_at s i))"
    and "\<forall>a \<in> set ops.
           (\<exists>v. a = set_signal ext d i v \<and> equal_fn (sig_at s i) (val (sig_at s i)) v) \<or>
           (\<exists>fn. a = update ext d i fn \<and>
                 equal_fn (sig_at s i) (val (sig_at s i)) (fn (val (sig_at s i))))"
  shows "sequence ops s = (Inr (), s)"
  using assms(3)
proof (induction ops)
  case Nil show ?case by simp
next
  case (Cons a ops)
  have "a s = (Inr (), s)"
    using Cons.prems assms(1,2) by (auto simp: set_signal_equal update_equal)
  then show ?case using Cons by simp
qed

lemma watched_cell_eq:
  "watched_cell = \<lparr>sigs = [\<lparr>val = 0, listeners = [External 0], cleanups = [], deps = [],
       equal_fn = within_two, kind = Writable\<rparr>], contextStack = [], trace = []\<rparr>"
  by (simp add: watched_cell_def signal_def empty_world_def upd_def sig_at_def isWritable_def set_add_def)

lemma scenario1: "sequence [set_signal observer 2 0 1, set_signal observer 2 0 2] watched_cell = (Inr (), watched_cell)"
  by (simp add: watched_cell_eq set_signal_def sig_at_def within_two_def)

lemma scenario2: "sequence [set_signal observer 2 0 1, set_signal observer 2 0 2, set_signal observer 2 0 3] watched_cell
   = (Inr (), watched_cell\<lparr>sigs := [(sig_at watched_cell 0)\<lparr>val := 3\<rparr>], trace := [Called 0 3]\<rparr>)"
  by (simp add: watched_cell_eq set_signal_def sig_at_def within_two_def upd_def invoke_observer emit_def)

lemma notify_append:
  "notify call arg (xs @ ys) s =
     (case notify call arg xs s of
        (Inl e, s') \<Rightarrow> (Inl e, s')
      | (Inr u, s') \<Rightarrow> notify call arg ys s')"
  by (induction xs arbitrary: s) (auto split: prod.splits sum.splits)

lemma same_frame_writable_val:
  "same_frame s s' \<Longrightarrow> i < length (sigs s) \<Longrightarrow> isWritable (kind (sig_at s i)) \<Longrightarrow>
   val (sig_at s' i) = val (sig_at s i) \<and> isWritable (kind (sig_at s' i)) \<and> i < length (sigs s')"
  by (simp add: same_frame_def)

lemma read_writable:
  "i < length (sigs s) \<Longrightarrow> isWritable (kind (sig_at s i)) \<Longrightarrow>
   fst (read (Suc k) i s) = Inr (val (sig_at s i))"
  by (simp add: Let_def)

lemma scan_keeps:
  assumes "keeps_frames g"
  shows "contextStack (snd (scan g w)) = contextStack w"
proof -
  have "frames_kept (w\<lparr>contextStack := [] # contextStack w\<rparr>)
          (snd (g (w\<lparr>contextStack := [] # contextStack w\<rparr>)))"
    using assms by (simp add: keeps_frames_def)
  then show ?thesis by (auto simp: scan_def Let_def frames_kept_def)
qed

lemma read_keeps: "keeps_frames (read d j)"
  by (simp add: keeps_frames_def read_frames_kept)

lemma run_keeps: "keeps_frames (run (read d) c)"
  unfolding keeps_frames_def
  by (intro allI, rule run_rel)
     (rule frames_kept_refl, erule frames_kept_trans, assumption, rule read_frames_kept)

lemma exec_keeps: "keeps_frames (exec (read d) i c)"
  unfolding keeps_frames_def
  by (intro allI, rule exec_rel)
     (rule frames_kept_refl, erule frames_kept_trans, assumption, rule read_frames_kept,
      simp add: frames_kept_same)

lemma scan_nests:
  assumes "keeps_frames f"
  shows "keeps_frames (\<lambda>w. (Inr (fst (scan f w)) :: error + sid list, snd (scan f w)))"
  using scan_keeps[OF assms] by (simp add: keeps_frames_def frames_kept_same)

lemma only_executions_refl: "only_executions s s"
  by (simp add: only_executions_def)

lemma only_executions_trans:
  "only_executions s s' \<Longrightarrow> only_executions s' s'' \<Longrightarrow> only_executions s s''"
  by (auto simp: only_executions_def)

lemma only_executions_same:
  "length (sigs s') = length (sigs s) \<Longrightarrow> trace s' = trace s \<Longrightarrow> only_executions s s'"
  by (simp add: only_executions_def)

lemma only_executions_emit:
  "i < length (sigs s) \<Longrightarrow> only_executions s (emit (Executed i) s)"
  by (simp add: only_executions_def)

lemma read_only_executions: "only_executions s (snd (read d i s))"
  by (rule read_rel)
     (rule only_executions_refl, erule only_executions_trans, assumption,
      erule only_executions_emit, simp_all add: only_executions_same)

lemma run_only_executions: "only_executions s (snd (run (read d) c s))"
  by (rule run_rel)
     (rule only_executions_refl, erule only_executions_trans, assumption,
      rule read_only_executions)

lemma executions_only:
  assumes "only_executions s s'" "length (sigs s) \<le> i"
  shows "executions i s' = executions i s"
proof -
  obtain es where e: "trace s' = trace s @ es" "\<forall>e \<in> set es. \<exists>k < length (sigs s). e = Executed k"
    using assms(1) by (auto simp: only_executions_def)
  have "filter (\<lambda>e. e = Executed i) es = []"
    using e(2) assms(2) by (auto simp: filter_empty_conv)
  then show ?thesis using e(1) by (simp add: executions_def)
qed

lemma executions_exec:
  assumes "length (sigs s) \<le> i"
  shows "executions i (snd (exec (read d) i c s)) = executions i s + 1 \<and>
         length (sigs (snd (exec (read d) i c s))) = length (sigs s)"
proof -
  have a: "only_executions (emit (Executed i) s) (snd (run (read d) c (emit (Executed i) s)))"
    by (rule run_only_executions)
  have "executions i (snd (run (read d) c (emit (Executed i) s))) = executions i (emit (Executed i) s)"
    by (rule executions_only[OF a]) (use assms in simp)
  then show ?thesis using a by (simp add: exec_def executions_def only_executions_def)
qed

lemma executions_scan_exec:
  assumes "length (sigs s) \<le> i"
  shows "executions i (snd (scan (exec (read d) i c) s)) = executions i s + 1"
proof -
  have "executions i (snd (exec (read d) i c (s\<lparr>contextStack := [] # contextStack s\<rparr>))) =
        executions i (s\<lparr>contextStack := [] # contextStack s\<rparr>) + 1"
    using executions_exec[of "s\<lparr>contextStack := [] # contextStack s\<rparr>" i d c] assms by simp
  then show ?thesis by (simp add: scan_def Let_def executions_def)
qed

lemma one_cell_eq:
  "one_cell = \<lparr>sigs = [\<lparr>val = 1, listeners = [], cleanups = [], deps = [],
       equal_fn = defaultEqual, kind = Writable\<rparr>], contextStack = [], trace = []\<rparr>"
  by (simp add: one_cell_def signal_def empty_world_def)

lemmas eval_defs = computed_def exec_def scan_def Let_def isContextOpen_def register_def set_add_def
  sig_at_def isWritable_def emit_def upd_def recompute_def derive_def invoke_observer set_signal_def
  update_def defaultEqual_def set_delete_def

lemma sig_at_contextStack_update [simp]: "sig_at (s\<lparr>contextStack := x\<rparr>) j = sig_at s j"
  by (simp add: sig_at_def)

lemma sig_at_trace_update [simp]: "sig_at (s\<lparr>trace := x\<rparr>) j = sig_at s j"
  by (simp add: sig_at_def)





lemma cache_kept_refl: "cache_kept s s"
  by (simp add: cache_kept_def)

lemma cache_kept_trans: "cache_kept s s' \<Longrightarrow> cache_kept s' s'' \<Longrightarrow> cache_kept s s''"
  unfolding cache_kept_def same_frame_def by auto

lemma cache_kept_same: "sigs s' = sigs s \<Longrightarrow> cache_kept s s'"
  by (simp add: cache_kept_def same_frame_def sig_at_def)

lemma cache_kept_upd:
  "i < length (sigs s) \<Longrightarrow> \<not> isWritable (kind (sig_at s i)) \<Longrightarrow> listeners (sig_at s i) = [] \<Longrightarrow>
   cache_kept s (upd i (\<lambda>g. g\<lparr>val := v\<rparr>) s)"
  by (auto simp: cache_kept_def same_frame_upd_val sig_at_upd)

lemma read_cache_kept: "cache_kept s (snd (read d i s))"
  by (rule read_rel)
     (rule cache_kept_refl, erule cache_kept_trans, assumption,
      simp_all add: cache_kept_same cache_kept_upd)

lemma exec_cache_kept: "cache_kept s (snd (exec (read d) i c s))"
  by (rule exec_rel)
     (rule cache_kept_refl, erule cache_kept_trans, assumption, rule read_cache_kept,
      simp add: cache_kept_same)

lemma read_inactive_computed:
  assumes "i < length (sigs s)" "kind (sig_at s i) = Computed c" "listeners (sig_at s i) = []"
  shows "(case exec (read d) i c (if isContextOpen s then register i s else s) of
            (Inl e, s2) \<Rightarrow> read (Suc d) i s = (Inl e, s2)
          | (Inr v, s2) \<Rightarrow> read (Suc d) i s = (Inr v, upd i (\<lambda>g. g\<lparr>val := v\<rparr>) s2))"
proof -
  define s1 where "s1 = (if isContextOpen s then register i s else s)"
  have props: "i < length (sigs s1)" "kind (sig_at s1 i) = Computed c" "listeners (sig_at s1 i) = []"
    using assms by (simp_all add: s1_def)
  obtain r s2 where p: "exec (read d) i c s1 = (r, s2)" by (cases "exec (read d) i c s1")
  have "same_frame s1 (snd (exec (read d) i c s1))"
    by (rule exec_same_frame) (rule read_same_frame)
  then have len: "i < length (sigs s2)" using p props(1) by (simp add: same_frame_def)
  have "read (Suc d) i s =
        (case r of Inl e \<Rightarrow> (Inl e, s2) | Inr v \<Rightarrow> (Inr v, upd i (\<lambda>g. g\<lparr>val := v\<rparr>) s2))"
    using assms(1) props p len
    by (cases r) (simp_all add: s1_def[symmetric] Let_def recompute_def isWritable_def)
  then show ?thesis using p unfolding s1_def[symmetric] by (cases r) simp_all
qed

lemma read_active:
  assumes "i < length (sigs s)" "listeners (sig_at s i) \<noteq> []"
  shows "read (Suc d) i s = (Inr (val (sig_at s i)), if isContextOpen s then register i s else s)"
  using assms by (simp add: Let_def)

lemma passUpdate_active_computed:
  assumes "i < length (sigs s)" "kind (sig_at s i) = Computed c" "listeners (sig_at s i) \<noteq> []"
  shows "(case exec (read d) i c s of
            (Inl e, s1) \<Rightarrow> passUpdate observer (Suc d) i s = (Inl e, s1)
          | (Inr nxt, s1) \<Rightarrow>
              val (sig_at s1 i) = val (sig_at s i) \<and>
              (if equal_fn (sig_at s i) (val (sig_at s i)) nxt
               then passUpdate observer (Suc d) i s = (Inr (), s1)
               else passUpdate observer (Suc d) i s =
                      notify (invoke observer (passUpdate observer d)) (\<lambda>w. val (sig_at w i)) (listeners (sig_at s i))
                        (upd i (\<lambda>g. g\<lparr>val := nxt\<rparr>) s1)))"
proof -
  obtain r s1 where p: "exec (read d) i c s = (r, s1)" by (cases "exec (read d) i c s")
  have "cache_kept s (snd (exec (read d) i c s))" by (rule exec_cache_kept)
  then have ck: "cache_kept s s1" using p by simp
  then have k: "val (sig_at s1 i) = val (sig_at s i)" "equal_fn (sig_at s1 i) = equal_fn (sig_at s i)"
    "listeners (sig_at s1 i) = listeners (sig_at s i)" "i < length (sigs s1)"
    using assms by (simp_all add: cache_kept_def same_frame_def)
  show ?thesis using assms p k
    by (cases r) (simp_all add: Let_def recompute_def)
qed

lemma coarse_world_eq:
  "coarse_world =
     \<lparr>sigs = [\<lparr>val = 1, listeners = [PassUpdate 1], cleanups = [], deps = [],
               equal_fn = defaultEqual, kind = Writable\<rparr>,
              \<lparr>val = 0, listeners = [External 7], cleanups = [Unsubscribe 0 (PassUpdate 1)],
               deps = [0], equal_fn = within_two, kind = Computed (Read 0 Return)\<rparr>],
      contextStack = [],
      trace = [Executed 1, Executed 1, Executed 1, Called 7 0, Executed 1]\<rparr>"
  by (simp add: coarse_world_def zero_cell_def signal_def empty_world_def eval_defs
      numeral_2_eq_2 within_two_def)

lemma subscribe_active:
  assumes "i < length (sigs s)" "\<not> isWritable (kind (sig_at s i))" "listeners (sig_at s i) \<noteq> []"
  shows "subscribe ext (Suc d) i l s =
           (Inr (Unsubscribe i l), upd i (\<lambda>g. g\<lparr>listeners := set_add l (listeners g)\<rparr>) s) \<and>
         trace (snd (subscribe ext (Suc d) i l s)) = trace s \<and>
         val (sig_at (snd (subscribe ext (Suc d) i l s)) i) = val (sig_at s i) \<and>
         l \<in> set (listeners (sig_at (snd (subscribe ext (Suc d) i l s)) i))"
  using assms by (simp add: set_add_def)

lemma passUpdate_active:
  assumes "i < length (sigs s)" "listeners (sig_at s i) \<noteq> []"
  shows "(case recompute (read d) i (kind (sig_at s i)) s of
            (Inl e, s1) \<Rightarrow> passUpdate observer (Suc d) i s = (Inl e, s1)
          | (Inr nxt, s1) \<Rightarrow>
              (if equal_fn (sig_at s1 i) (val (sig_at s1 i)) nxt
               then passUpdate observer (Suc d) i s = (Inr (), s1)
               else passUpdate observer (Suc d) i s =
                      notify (invoke observer (passUpdate observer d)) (\<lambda>w. val (sig_at w i)) (listeners (sig_at s i))
                        (upd i (\<lambda>g. g\<lparr>val := nxt\<rparr>) s1)))"
proof -
  obtain r s1 where p: "recompute (read d) i (kind (sig_at s i)) s = (r, s1)"
    by (cases "recompute (read d) i (kind (sig_at s i)) s")
  have "same_frame s (snd (recompute (read d) i (kind (sig_at s i)) s))"
    by (rule recompute_same_frame) (rule read_same_frame)
  then have k: "listeners (sig_at s1 i) = listeners (sig_at s i)" "i < length (sigs s1)"
    using p assms by (simp_all add: same_frame_def)
  show ?thesis using assms p k by (cases r) (simp_all add: Let_def)
qed

lemma set_linked:
  assumes "i < length (sigs s)" "kind (sig_at s i) = Linked f c"
    "\<not> equal_fn (sig_at s i) (val (sig_at s i)) v"
  shows "set_signal observer d i v s =
           notify (invoke observer (passUpdate observer d)) (\<lambda>w. v) (listeners (sig_at s i))
             (upd i (\<lambda>g. g\<lparr>val := v\<rparr>) s)"
  using assms by (simp add: set_signal_def Let_def)

lemma linked_pair_eq:
  "linked_pair =
     \<lparr>sigs = [\<lparr>val = 1, listeners = [PassUpdate 1], cleanups = [], deps = [],
               equal_fn = defaultEqual, kind = Writable\<rparr>,
              \<lparr>val = 1, listeners = [External 1, External 2],
               cleanups = [Unsubscribe 0 (PassUpdate 1)],
               deps = [0], equal_fn = defaultEqual,
               kind = Linked (Read 0 Return) (\<lambda>srcVal prev. Return srcVal)\<rparr>],
      contextStack = [],
      trace = [Executed 1, Executed 1, Called 1 1]\<rparr>"
  by (simp add: linked_pair_def one_cell_eq linkedSignal_def eval_defs numeral_2_eq_2)

lemma grows_refl: "grows s s"
  by (simp add: grows_def)

lemma grows_trans: "grows s s' \<Longrightarrow> grows s' s'' \<Longrightarrow> grows s s''"
  unfolding grows_def by (auto, blast+)

lemma same_frame_grows: "same_frame s s' \<Longrightarrow> grows s s'"
  by (simp add: same_frame_def grows_def)

lemma grows_add_listener: "grows s (upd i (\<lambda>g. g\<lparr>listeners := set_add l (listeners g)\<rparr>) s)"
  by (auto simp: grows_def sig_at_upd set_add_def)

lemma grows_add_cleanup: "grows s (upd i (\<lambda>g. g\<lparr>cleanups := cleanups g @ [c]\<rparr>) s)"
  by (auto simp: grows_def sig_at_upd)

lemma grows_upd_val: "grows s (upd i (\<lambda>g. g\<lparr>val := v\<rparr>) s)"
  by (auto simp: grows_def sig_at_upd)



lemma subscribe_deps_rel:
  assumes refl: "\<And>s. R s s"
    and trans: "\<And>s s' s''. R s s' \<Longrightarrow> R s' s'' \<Longrightarrow> R s s''"
    and sub: "\<And>j l s. R s (snd (sub j l s))"
    and cl: "\<And>c s. R s (upd i (\<lambda>g. g\<lparr>cleanups := cleanups g @ [c]\<rparr>) s)"
  shows "R s (snd (subscribe_deps sub i ds s))"
proof (induction ds arbitrary: s)
  case Nil show ?case by (simp add: refl)
next
  case (Cons dep ds)
  obtain r s1 where p: "sub dep (PassUpdate i) s = (r, s1)" by (cases "sub dep (PassUpdate i) s")
  have a: "R s s1" using sub[of s dep "PassUpdate i"] p by simp
  show ?case
  proof (cases r)
    case (Inl e) then show ?thesis using p a by simp
  next
    case (Inr c)
    let ?s2 = "upd i (\<lambda>g. g\<lparr>cleanups := cleanups g @ [c]\<rparr>) s1"
    have "R s ?s2" using trans[OF a cl[of s1 c]] .
    then have "R s (snd (subscribe_deps sub i ds ?s2))" using trans[OF _ Cons.IH[of ?s2]] by blast
    then show ?thesis using p Inr by simp
  qed
qed

lemma subscribe_grows: "grows s (snd (subscribe observer d i l s))"
proof (induction d arbitrary: i l s)
  case 0 show ?case by (simp add: grows_refl)
next
  case (Suc d)
  show ?case
  proof (cases "length (sigs s) \<le> i")
    case True then show ?thesis by (simp add: grows_refl)
  next
    case inr: False
    show ?thesis
    proof (cases "isWritable (kind (sig_at s i)) \<or> listeners (sig_at s i) \<noteq> []")
      case True
      then show ?thesis using inr by (auto simp: grows_add_listener)
    next
      case False
      obtain r1 s1 where p1: "subscribe_deps (subscribe observer d) i (deps (sig_at s i)) s = (r1, s1)"
        by (cases "subscribe_deps (subscribe observer d) i (deps (sig_at s i)) s")
      have "grows s (snd (subscribe_deps (subscribe observer d) i (deps (sig_at s i)) s))"
        by (rule subscribe_deps_rel)
           (rule grows_refl, erule grows_trans, assumption, rule Suc, rule grows_add_cleanup)
      then have g1: "grows s s1" using p1 by simp
      show ?thesis
      proof (cases r1)
        case (Inl e) then show ?thesis using inr False p1 g1 by simp
      next
        case (Inr u)
        obtain r2 s2 where p2: "recompute (read d) i (kind (sig_at s1 i)) s1 = (r2, s2)"
          by (cases "recompute (read d) i (kind (sig_at s1 i)) s1")
        have "same_frame s1 (snd (recompute (read d) i (kind (sig_at s1 i)) s1))"
          by (rule recompute_same_frame) (rule read_same_frame)
        then have g2: "grows s s2" using p2 g1 same_frame_grows grows_trans by fastforce
        show ?thesis
        proof (cases r2)
          case (Inl e) then show ?thesis using inr False p1 Inr p2 g2 by simp
        next
          case (Inr nxt)
          let ?s2' = "upd i (\<lambda>g. g\<lparr>val := nxt\<rparr>) s2"
          obtain r3 s3 where p3: "invoke observer (passUpdate observer d) l nxt ?s2' = (r3, s3)"
            by (cases "invoke observer (passUpdate observer d) l nxt ?s2'")
          have "same_frame ?s2' (snd (invoke observer (passUpdate observer d) l nxt ?s2'))"
            by (rule invoke_same_frame)
          then have "grows ?s2' s3" using p3 same_frame_grows by fastforce
          then have g3: "grows s s3" using grows_trans[OF grows_trans[OF g2 grows_upd_val]] by blast
          have g4: "grows s (upd i (\<lambda>g. g\<lparr>listeners := set_add l (listeners g)\<rparr>) s3)"
            using grows_trans[OF g3 grows_add_listener] .
          show ?thesis using inr False p1 \<open>r1 = Inr u\<close> p2 Inr p3 g3 g4
            by (cases r3) simp_all
        qed
      qed
    qed
  qed
qed

lemma subscribe_Inr:
  assumes "subscribe observer d i l s = (Inr c, s')"
  shows "c = Unsubscribe i l \<and> i < length (sigs s) \<and> l \<in> set (listeners (sig_at s' i))"
proof (cases d)
  case 0 then show ?thesis using assms by simp
next
  case (Suc d')
  have len: "length (sigs s') = length (sigs s)"
    using subscribe_grows[of s d i l] assms by (simp add: grows_def)
  have i: "i < length (sigs s)" using assms Suc by (auto split: if_splits)
  have "\<exists>w. s' = upd i (\<lambda>g. g\<lparr>listeners := set_add l (listeners g)\<rparr>) w \<and> c = Unsubscribe i l"
    using assms Suc by (auto split: if_splits prod.splits sum.splits)
  then obtain w where w: "s' = upd i (\<lambda>g. g\<lparr>listeners := set_add l (listeners g)\<rparr>) w" "c = Unsubscribe i l"
    by blast
  have "i < length (sigs w)" using len i w by simp
  then show ?thesis using w i by (simp add: set_add_def)
qed



lemma same_frame_skeleton: "same_frame s s' \<Longrightarrow> same_skeleton s s'"
  by (simp add: same_frame_def same_skeleton_def)

lemma held_by_skeleton: "same_skeleton s s' \<Longrightarrow> held_by s' part x = held_by s part x"
  by (auto simp: held_by_def same_skeleton_def split: option.splits)

lemma wired_skeleton:
  assumes "same_skeleton s s'" "wired s part"
  shows "wired s' part"
proof -
  have h: "\<And>x. held_by s' part x = held_by s part x" using assms(1) by (rule held_by_skeleton)
  have k: "length (sigs s') = length (sigs s)"
    "\<And>j. j < length (sigs s) \<Longrightarrow> listeners (sig_at s' j) = listeners (sig_at s j)"
    "\<And>j. j < length (sigs s) \<Longrightarrow> cleanups (sig_at s' j) = cleanups (sig_at s j)"
    "\<And>j. j < length (sigs s) \<Longrightarrow> deps (sig_at s' j) = deps (sig_at s j)"
    "\<And>j. j < length (sigs s) \<Longrightarrow> isWritable (kind (sig_at s' j)) = isWritable (kind (sig_at s j))"
    using assms(1) by (simp_all add: same_skeleton_def)
  show ?thesis using assms(2) unfolding wired_def h by (simp add: k)
qed

lemma wired_listeners_set:
  assumes w: "wired s (\<lambda>x. None)" and w': "wired s' (\<lambda>x. None)"
    and len: "length (sigs s') = length (sigs s)"
    and st: "\<forall>j < length (sigs s). deps (sig_at s' j) = deps (sig_at s j) \<and>
               isWritable (kind (sig_at s' j)) = isWritable (kind (sig_at s j))"
    and ext: "\<forall>j < length (sigs s). \<forall>m. External m \<in> set (listeners (sig_at s' j)) \<longleftrightarrow>
               External m \<in> set (listeners (sig_at s j))"
    and j: "j < length (sigs s)"
  shows "set (listeners (sig_at s' j)) = set (listeners (sig_at s j))"
  using j
proof (induction "length (sigs s) - j" arbitrary: j rule: less_induct)
  case less
  have ord: "\<And>x e. x < length (sigs s) \<Longrightarrow> e \<in> set (deps (sig_at s x)) \<Longrightarrow> e < x"
    using w by (simp add: wired_def)
  have pu: "PassUpdate x \<in> set (listeners (sig_at s' j)) \<longleftrightarrow> PassUpdate x \<in> set (listeners (sig_at s j))" for x
  proof (cases "x < length (sigs s) \<and> j \<in> set (deps (sig_at s x))")
    case True
    then have jx: "j < x" using ord by blast
    have "length (sigs s) - x < length (sigs s) - j" using jx True by arith
    then have "set (listeners (sig_at s' x)) = set (listeners (sig_at s x))"
      using less.hyps[of x] True by blast
    then have e: "listeners (sig_at s' x) = [] \<longleftrightarrow> listeners (sig_at s x) = []"
      by (metis set_empty)
    have a: "PassUpdate x \<in> set (listeners (sig_at s j)) \<longleftrightarrow> j \<in> held_by s (\<lambda>x. None) x"
      using w less.prems by (simp add: wired_def)
    have b: "PassUpdate x \<in> set (listeners (sig_at s' j)) \<longleftrightarrow> j \<in> held_by s' (\<lambda>x. None) x"
      using w' less.prems len by (simp add: wired_def)
    show ?thesis unfolding a b using True st len e by (simp add: held_by_def)
  next
    case False
    have a: "PassUpdate x \<in> set (listeners (sig_at s j)) \<longleftrightarrow> j \<in> held_by s (\<lambda>x. None) x"
      using w less.prems by (simp add: wired_def)
    have b: "PassUpdate x \<in> set (listeners (sig_at s' j)) \<longleftrightarrow> j \<in> held_by s' (\<lambda>x. None) x"
      using w' less.prems len by (simp add: wired_def)
    show ?thesis unfolding a b using False st len by (auto simp: held_by_def)
  qed
  show ?case
  proof (intro set_eqI)
    fix l show "l \<in> set (listeners (sig_at s' j)) \<longleftrightarrow> l \<in> set (listeners (sig_at s j))"
      using pu ext less.prems by (cases l) simp_all
  qed
qed

lemma listeners_upd_val [simp]:
  "listeners (sig_at (upd j (\<lambda>g. g\<lparr>val := F g\<rparr>) s) k) = listeners (sig_at s k)"
  by (cases "j < length (sigs s)") (auto simp: upd_def sig_at_def nth_list_update list_update_beyond not_less)

lemma cleanups_upd_val [simp]:
  "cleanups (sig_at (upd j (\<lambda>g. g\<lparr>val := F g\<rparr>) s) k) = cleanups (sig_at s k)"
  by (cases "j < length (sigs s)") (auto simp: upd_def sig_at_def nth_list_update list_update_beyond not_less)

lemma deps_upd_val [simp]:
  "deps (sig_at (upd j (\<lambda>g. g\<lparr>val := F g\<rparr>) s) k) = deps (sig_at s k)"
  by (cases "j < length (sigs s)") (auto simp: upd_def sig_at_def nth_list_update list_update_beyond not_less)

lemma equal_fn_upd_val [simp]:
  "equal_fn (sig_at (upd j (\<lambda>g. g\<lparr>val := F g\<rparr>) s) k) = equal_fn (sig_at s k)"
  by (cases "j < length (sigs s)") (auto simp: upd_def sig_at_def nth_list_update list_update_beyond not_less)

lemma kind_upd_val [simp]:
  "kind (sig_at (upd j (\<lambda>g. g\<lparr>val := F g\<rparr>) s) k) = kind (sig_at s k)"
  by (cases "j < length (sigs s)") (auto simp: upd_def sig_at_def nth_list_update list_update_beyond not_less)

lemma val_upd_val:
  "val (sig_at (upd j (\<lambda>g. g\<lparr>val := F g\<rparr>) s) k) =
     (if k = j \<and> j < length (sigs s) then F (sig_at s j) else val (sig_at s k))"
  by (cases "j < length (sigs s)") (auto simp: upd_def sig_at_def nth_list_update list_update_beyond not_less)

lemma val_upd_listeners [simp]:
  "val (sig_at (upd j (\<lambda>g. g\<lparr>listeners := F g\<rparr>) s) k) = val (sig_at s k)"
  by (cases "j < length (sigs s)") (auto simp: upd_def sig_at_def nth_list_update list_update_beyond not_less)

lemma cleanups_upd_listeners [simp]:
  "cleanups (sig_at (upd j (\<lambda>g. g\<lparr>listeners := F g\<rparr>) s) k) = cleanups (sig_at s k)"
  by (cases "j < length (sigs s)") (auto simp: upd_def sig_at_def nth_list_update list_update_beyond not_less)

lemma deps_upd_listeners [simp]:
  "deps (sig_at (upd j (\<lambda>g. g\<lparr>listeners := F g\<rparr>) s) k) = deps (sig_at s k)"
  by (cases "j < length (sigs s)") (auto simp: upd_def sig_at_def nth_list_update list_update_beyond not_less)

lemma equal_fn_upd_listeners [simp]:
  "equal_fn (sig_at (upd j (\<lambda>g. g\<lparr>listeners := F g\<rparr>) s) k) = equal_fn (sig_at s k)"
  by (cases "j < length (sigs s)") (auto simp: upd_def sig_at_def nth_list_update list_update_beyond not_less)

lemma kind_upd_listeners [simp]:
  "kind (sig_at (upd j (\<lambda>g. g\<lparr>listeners := F g\<rparr>) s) k) = kind (sig_at s k)"
  by (cases "j < length (sigs s)") (auto simp: upd_def sig_at_def nth_list_update list_update_beyond not_less)

lemma listeners_upd_listeners:
  "listeners (sig_at (upd j (\<lambda>g. g\<lparr>listeners := F g\<rparr>) s) k) =
     (if k = j \<and> j < length (sigs s) then F (sig_at s j) else listeners (sig_at s k))"
  by (cases "j < length (sigs s)") (auto simp: upd_def sig_at_def nth_list_update list_update_beyond not_less)

lemma val_upd_cleanups [simp]:
  "val (sig_at (upd j (\<lambda>g. g\<lparr>cleanups := F g\<rparr>) s) k) = val (sig_at s k)"
  by (cases "j < length (sigs s)") (auto simp: upd_def sig_at_def nth_list_update list_update_beyond not_less)

lemma listeners_upd_cleanups [simp]:
  "listeners (sig_at (upd j (\<lambda>g. g\<lparr>cleanups := F g\<rparr>) s) k) = listeners (sig_at s k)"
  by (cases "j < length (sigs s)") (auto simp: upd_def sig_at_def nth_list_update list_update_beyond not_less)

lemma deps_upd_cleanups [simp]:
  "deps (sig_at (upd j (\<lambda>g. g\<lparr>cleanups := F g\<rparr>) s) k) = deps (sig_at s k)"
  by (cases "j < length (sigs s)") (auto simp: upd_def sig_at_def nth_list_update list_update_beyond not_less)

lemma equal_fn_upd_cleanups [simp]:
  "equal_fn (sig_at (upd j (\<lambda>g. g\<lparr>cleanups := F g\<rparr>) s) k) = equal_fn (sig_at s k)"
  by (cases "j < length (sigs s)") (auto simp: upd_def sig_at_def nth_list_update list_update_beyond not_less)

lemma kind_upd_cleanups [simp]:
  "kind (sig_at (upd j (\<lambda>g. g\<lparr>cleanups := F g\<rparr>) s) k) = kind (sig_at s k)"
  by (cases "j < length (sigs s)") (auto simp: upd_def sig_at_def nth_list_update list_update_beyond not_less)

lemma cleanups_upd_cleanups:
  "cleanups (sig_at (upd j (\<lambda>g. g\<lparr>cleanups := F g\<rparr>) s) k) =
     (if k = j \<and> j < length (sigs s) then F (sig_at s j) else cleanups (sig_at s k))"
  by (cases "j < length (sigs s)") (auto simp: upd_def sig_at_def nth_list_update list_update_beyond not_less)

lemma listeners_upd_val_const [simp]:
  "listeners (sig_at (upd j (\<lambda>g. g\<lparr>val := X\<rparr>) s) k) = listeners (sig_at s k)"
  by (cases "j < length (sigs s)") (auto simp: upd_def sig_at_def nth_list_update list_update_beyond not_less)

lemma cleanups_upd_val_const [simp]:
  "cleanups (sig_at (upd j (\<lambda>g. g\<lparr>val := X\<rparr>) s) k) = cleanups (sig_at s k)"
  by (cases "j < length (sigs s)") (auto simp: upd_def sig_at_def nth_list_update list_update_beyond not_less)

lemma deps_upd_val_const [simp]:
  "deps (sig_at (upd j (\<lambda>g. g\<lparr>val := X\<rparr>) s) k) = deps (sig_at s k)"
  by (cases "j < length (sigs s)") (auto simp: upd_def sig_at_def nth_list_update list_update_beyond not_less)

lemma equal_fn_upd_val_const [simp]:
  "equal_fn (sig_at (upd j (\<lambda>g. g\<lparr>val := X\<rparr>) s) k) = equal_fn (sig_at s k)"
  by (cases "j < length (sigs s)") (auto simp: upd_def sig_at_def nth_list_update list_update_beyond not_less)

lemma kind_upd_val_const [simp]:
  "kind (sig_at (upd j (\<lambda>g. g\<lparr>val := X\<rparr>) s) k) = kind (sig_at s k)"
  by (cases "j < length (sigs s)") (auto simp: upd_def sig_at_def nth_list_update list_update_beyond not_less)

lemma val_upd_val_const:
  "val (sig_at (upd j (\<lambda>g. g\<lparr>val := X\<rparr>) s) k) =
     (if k = j \<and> j < length (sigs s) then X else val (sig_at s k))"
  by (cases "j < length (sigs s)") (auto simp: upd_def sig_at_def nth_list_update list_update_beyond not_less)

lemma val_upd_listeners_const [simp]:
  "val (sig_at (upd j (\<lambda>g. g\<lparr>listeners := X\<rparr>) s) k) = val (sig_at s k)"
  by (cases "j < length (sigs s)") (auto simp: upd_def sig_at_def nth_list_update list_update_beyond not_less)

lemma cleanups_upd_listeners_const [simp]:
  "cleanups (sig_at (upd j (\<lambda>g. g\<lparr>listeners := X\<rparr>) s) k) = cleanups (sig_at s k)"
  by (cases "j < length (sigs s)") (auto simp: upd_def sig_at_def nth_list_update list_update_beyond not_less)

lemma deps_upd_listeners_const [simp]:
  "deps (sig_at (upd j (\<lambda>g. g\<lparr>listeners := X\<rparr>) s) k) = deps (sig_at s k)"
  by (cases "j < length (sigs s)") (auto simp: upd_def sig_at_def nth_list_update list_update_beyond not_less)

lemma equal_fn_upd_listeners_const [simp]:
  "equal_fn (sig_at (upd j (\<lambda>g. g\<lparr>listeners := X\<rparr>) s) k) = equal_fn (sig_at s k)"
  by (cases "j < length (sigs s)") (auto simp: upd_def sig_at_def nth_list_update list_update_beyond not_less)

lemma kind_upd_listeners_const [simp]:
  "kind (sig_at (upd j (\<lambda>g. g\<lparr>listeners := X\<rparr>) s) k) = kind (sig_at s k)"
  by (cases "j < length (sigs s)") (auto simp: upd_def sig_at_def nth_list_update list_update_beyond not_less)

lemma listeners_upd_listeners_const:
  "listeners (sig_at (upd j (\<lambda>g. g\<lparr>listeners := X\<rparr>) s) k) =
     (if k = j \<and> j < length (sigs s) then X else listeners (sig_at s k))"
  by (cases "j < length (sigs s)") (auto simp: upd_def sig_at_def nth_list_update list_update_beyond not_less)

lemma val_upd_cleanups_const [simp]:
  "val (sig_at (upd j (\<lambda>g. g\<lparr>cleanups := X\<rparr>) s) k) = val (sig_at s k)"
  by (cases "j < length (sigs s)") (auto simp: upd_def sig_at_def nth_list_update list_update_beyond not_less)

lemma listeners_upd_cleanups_const [simp]:
  "listeners (sig_at (upd j (\<lambda>g. g\<lparr>cleanups := X\<rparr>) s) k) = listeners (sig_at s k)"
  by (cases "j < length (sigs s)") (auto simp: upd_def sig_at_def nth_list_update list_update_beyond not_less)

lemma deps_upd_cleanups_const [simp]:
  "deps (sig_at (upd j (\<lambda>g. g\<lparr>cleanups := X\<rparr>) s) k) = deps (sig_at s k)"
  by (cases "j < length (sigs s)") (auto simp: upd_def sig_at_def nth_list_update list_update_beyond not_less)

lemma equal_fn_upd_cleanups_const [simp]:
  "equal_fn (sig_at (upd j (\<lambda>g. g\<lparr>cleanups := X\<rparr>) s) k) = equal_fn (sig_at s k)"
  by (cases "j < length (sigs s)") (auto simp: upd_def sig_at_def nth_list_update list_update_beyond not_less)

lemma kind_upd_cleanups_const [simp]:
  "kind (sig_at (upd j (\<lambda>g. g\<lparr>cleanups := X\<rparr>) s) k) = kind (sig_at s k)"
  by (cases "j < length (sigs s)") (auto simp: upd_def sig_at_def nth_list_update list_update_beyond not_less)

lemma cleanups_upd_cleanups_const:
  "cleanups (sig_at (upd j (\<lambda>g. g\<lparr>cleanups := X\<rparr>) s) k) =
     (if k = j \<and> j < length (sigs s) then X else cleanups (sig_at s k))"
  by (cases "j < length (sigs s)") (auto simp: upd_def sig_at_def nth_list_update list_update_beyond not_less)

lemma wired_begin:
  assumes "wired s part" "j < length (sigs s)" "\<not> isWritable (kind (sig_at s j))"
    "part j = None" "listeners (sig_at s j) = []"
  shows "wired s (part(j \<mapsto> {}))"
proof -
  have h: "held_by s (part(j \<mapsto> {})) x = held_by s part x" for x
    using assms by (simp add: held_by_def)
  show ?thesis using assms unfolding wired_def h by auto
qed

lemma wired_pending_cleanups:
  assumes "wired s part" "part j = Some P"
  shows "wired (upd j (\<lambda>g. g\<lparr>cleanups := X\<rparr>) s) part"
proof -
  have jn: "j < length (sigs s)" using assms by (auto simp: wired_def)
  have h: "held_by (upd j (\<lambda>g. g\<lparr>cleanups := X\<rparr>) s) part x = held_by s part x" for x
    by (simp add: held_by_def split: option.splits)
  show ?thesis using assms unfolding wired_def h
    by (auto simp: cleanups_upd_cleanups_const)
qed

lemma wired_add_listener:
  assumes w: "wired s part" and j: "j < length (sigs s)" and pj: "part j = None"
    and ad: "addable s part j l"
    and act: "isWritable (kind (sig_at s j)) \<or> listeners (sig_at s j) \<noteq> []"
  shows "wired (upd j (\<lambda>g. g\<lparr>listeners := set_add l (listeners g)\<rparr>) s) (part_add part j l)"
proof (cases l)
  case (External m)
  let ?s' = "upd j (\<lambda>g. g\<lparr>listeners := set_add l (listeners g)\<rparr>) s"
  have h: "held_by ?s' part x = held_by s part x" for x
    using act j by (cases "x = j") (auto simp: held_by_def set_add_def split: option.splits)
  have "wired ?s' part" using w j External act pj unfolding wired_def h
    by (auto simp: listeners_upd_listeners set_add_def)
  then show ?thesis using External by (simp add: part_add_def)
next
  case (PassUpdate p)
  then obtain P where P: "part p = Some P" "j \<in> set (deps (sig_at s p))" "j \<notin> P"
    using ad by (auto simp: addable_def)
  let ?s' = "upd j (\<lambda>g. g\<lparr>listeners := set_add l (listeners g)\<rparr>) s"
  let ?part' = "part(p \<mapsto> insert j P)"
  have pn: "p < length (sigs s)" "\<not> isWritable (kind (sig_at s p))" "listeners (sig_at s p) = []"
    "P \<subseteq> set (deps (sig_at s p))"
    using w P(1) by (auto simp: wired_def)
  have pj': "p \<noteq> j" using P(1) pj by auto
  have notin: "PassUpdate p \<notin> set (listeners (sig_at s j))"
    using w j P pn by (simp add: wired_def held_by_def)
  have h: "held_by ?s' ?part' x = (if x = p then insert j P else held_by s part x)" for x
    using act j pn pj' P(1)
    by (cases "x = j") (auto simp: held_by_def set_add_def sig_at_upd split: option.splits)
  have hp: "held_by s part p = P" using pn P(1) by (simp add: held_by_def)
  have "wired ?s' ?part'"
    unfolding wired_def h
  proof (intro conjI)
    show "\<forall>ja<length (sigs ?s'). \<forall>e\<in>set (deps (sig_at ?s' ja)). e < ja"
      using w by (auto simp: wired_def sig_at_upd)
    show "\<forall>ja<length (sigs ?s'). distinct (deps (sig_at ?s' ja)) \<and> distinct (listeners (sig_at ?s' ja))"
      using w by (auto simp: wired_def sig_at_upd set_add_def)
    show "\<forall>ja Pa. ?part' ja = Some Pa \<longrightarrow>
        ja < length (sigs ?s') \<and> \<not> isWritable (kind (sig_at ?s' ja)) \<and>
        listeners (sig_at ?s' ja) = [] \<and> Pa \<subseteq> set (deps (sig_at ?s' ja))"
      using w pn pj' pj P by (auto simp: wired_def sig_at_upd)
    show "\<forall>e<length (sigs ?s'). \<forall>x. (PassUpdate x \<in> set (listeners (sig_at ?s' e))) =
        (e \<in> (if x = p then insert j P else held_by s part x))"
      using w j notin hp PassUpdate by (auto simp: wired_def sig_at_upd set_add_def)
    show "\<forall>ja<length (sigs ?s'). \<not> isWritable (kind (sig_at ?s' ja)) \<longrightarrow> ?part' ja = None \<longrightarrow>
        cleanups (sig_at ?s' ja) =
          (if listeners (sig_at ?s' ja) = [] then []
           else map (\<lambda>e. Unsubscribe e (PassUpdate ja)) (deps (sig_at ?s' ja)))"
      using w j act pj by (auto simp: wired_def sig_at_upd set_add_def)
  qed
  then show ?thesis using PassUpdate P(1) by (simp add: part_add_def)
qed

lemma wired_pending_cleanups_fn:
  assumes "wired s part" "part j = Some P"
  shows "wired (upd j (\<lambda>g. g\<lparr>cleanups := F g\<rparr>) s) part"
proof -
  have h: "held_by (upd j (\<lambda>g. g\<lparr>cleanups := F g\<rparr>) s) part x = held_by s part x" for x
    by (simp add: held_by_def split: option.splits)
  show ?thesis using assms unfolding wired_def h
    by (auto simp: cleanups_upd_cleanups)
qed

lemma wired_activate:
  assumes w: "wired s (part(j \<mapsto> set (deps (sig_at s j))))" and pj: "part j = None"
    and ad: "addable s part j l"
    and cl: "cleanups (sig_at s j) = map (\<lambda>e. Unsubscribe e (PassUpdate j)) (deps (sig_at s j))"
  shows "wired (upd j (\<lambda>g. g\<lparr>listeners := set_add l (listeners g)\<rparr>) s) (part_add part j l)"
proof -
  let ?pj = "part(j \<mapsto> set (deps (sig_at s j)))"
  let ?s' = "upd j (\<lambda>g. g\<lparr>listeners := set_add l (listeners g)\<rparr>) s"
  have jn: "j < length (sigs s)" "\<not> isWritable (kind (sig_at s j))" "listeners (sig_at s j) = []"
    using w by (auto simp: wired_def)
  have ord: "\<forall>e \<in> set (deps (sig_at s j)). e < j" using w jn by (simp add: wired_def)
  have lj: "listeners (sig_at ?s' k) = (if k = j then [l] else listeners (sig_at s k))" for k
    using jn by (simp add: listeners_upd_listeners set_add_def)
  have hold: "\<forall>e<length (sigs s). \<forall>x. (PassUpdate x \<in> set (listeners (sig_at s e))) = (e \<in> held_by s ?pj x)"
    using w by (simp add: wired_def)
  have nopu: "j \<notin> held_by s ?pj x" for x
    using hold jn by auto
  show ?thesis
  proof (cases l)
    case (External m)
    have h: "held_by ?s' part x = held_by s ?pj x" for x
      using jn pj by (cases "x = j") (auto simp: held_by_def lj set_add_def listeners_upd_listeners split: option.splits)
    have "wired ?s' part"
      unfolding wired_def h
    proof (intro conjI)
      show "\<forall>ja<length (sigs ?s'). \<forall>e\<in>set (deps (sig_at ?s' ja)). e < ja"
        using w by (auto simp: wired_def)
      show "\<forall>ja<length (sigs ?s'). distinct (deps (sig_at ?s' ja)) \<and> distinct (listeners (sig_at ?s' ja))"
        using w by (auto simp: wired_def lj)
      show "\<forall>ja P. part ja = Some P \<longrightarrow>
          ja < length (sigs ?s') \<and> \<not> isWritable (kind (sig_at ?s' ja)) \<and>
          listeners (sig_at ?s' ja) = [] \<and> P \<subseteq> set (deps (sig_at ?s' ja))"
      proof (intro allI impI)
        fix ja P assume a: "part ja = Some P"
        then have "ja \<noteq> j" using pj by auto
        then have "?pj ja = Some P" using a by simp
        then show "ja < length (sigs ?s') \<and> \<not> isWritable (kind (sig_at ?s' ja)) \<and>
          listeners (sig_at ?s' ja) = [] \<and> P \<subseteq> set (deps (sig_at ?s' ja))"
          using w \<open>ja \<noteq> j\<close> unfolding wired_def by (simp add: lj)
      qed
      show "\<forall>e<length (sigs ?s'). \<forall>x. (PassUpdate x \<in> set (listeners (sig_at ?s' e))) = (e \<in> held_by s ?pj x)"
        unfolding lj using hold nopu External by auto
      show "\<forall>ja<length (sigs ?s'). \<not> isWritable (kind (sig_at ?s' ja)) \<longrightarrow> part ja = None \<longrightarrow>
          cleanups (sig_at ?s' ja) =
            (if listeners (sig_at ?s' ja) = [] then []
             else map (\<lambda>e. Unsubscribe e (PassUpdate ja)) (deps (sig_at ?s' ja)))"
        using w cl unfolding wired_def by (auto simp: lj)
    qed
    then show ?thesis using External by (simp add: part_add_def)
  next
    case (PassUpdate p)
    then obtain P where P: "part p = Some P" "j \<in> set (deps (sig_at s p))" "j \<notin> P"
      using ad by (auto simp: addable_def)
    have pj': "p \<noteq> j" using P(1) pj by auto
    have pp: "?pj p = Some P" using P(1) pj' by simp
    have pn: "p < length (sigs s)" "\<not> isWritable (kind (sig_at s p))" "listeners (sig_at s p) = []"
      "P \<subseteq> set (deps (sig_at s p))"
      using w pp unfolding wired_def by blast+
    let ?part' = "part(p \<mapsto> insert j P)"
    have hp: "held_by s ?pj p = P" using pn pp by (simp add: held_by_def)
    have h: "held_by ?s' ?part' x = (if x = p then insert j P else held_by s ?pj x)" for x
      using jn pj pn pj' P(1) by (cases "x = j") (auto simp: held_by_def lj set_add_def listeners_upd_listeners split: option.splits)
    have "wired ?s' ?part'"
      unfolding wired_def h
    proof (intro conjI)
      show "\<forall>ja<length (sigs ?s'). \<forall>e\<in>set (deps (sig_at ?s' ja)). e < ja"
        using w by (auto simp: wired_def)
      show "\<forall>ja<length (sigs ?s'). distinct (deps (sig_at ?s' ja)) \<and> distinct (listeners (sig_at ?s' ja))"
        using w by (auto simp: wired_def lj)
      show "\<forall>ja Pa. ?part' ja = Some Pa \<longrightarrow>
          ja < length (sigs ?s') \<and> \<not> isWritable (kind (sig_at ?s' ja)) \<and>
          listeners (sig_at ?s' ja) = [] \<and> Pa \<subseteq> set (deps (sig_at ?s' ja))"
      proof (intro allI impI)
        fix ja Pa assume a: "?part' ja = Some Pa"
        show "ja < length (sigs ?s') \<and> \<not> isWritable (kind (sig_at ?s' ja)) \<and>
          listeners (sig_at ?s' ja) = [] \<and> Pa \<subseteq> set (deps (sig_at ?s' ja))"
        proof (cases "ja = p")
          case True
          then show ?thesis using a pn pj' P(2) by (auto simp: lj)
        next
          case False
          then have b: "part ja = Some Pa" using a by simp
          then have "ja \<noteq> j" using pj by auto
          then have "?pj ja = Some Pa" using b by simp
          then show ?thesis using w \<open>ja \<noteq> j\<close> unfolding wired_def by (simp add: lj)
        qed
      qed
      show "\<forall>e<length (sigs ?s'). \<forall>x. (PassUpdate x \<in> set (listeners (sig_at ?s' e))) =
          (e \<in> (if x = p then insert j P else held_by s ?pj x))"
        unfolding lj using hold nopu hp PassUpdate by auto
      show "\<forall>ja<length (sigs ?s'). \<not> isWritable (kind (sig_at ?s' ja)) \<longrightarrow> ?part' ja = None \<longrightarrow>
          cleanups (sig_at ?s' ja) =
            (if listeners (sig_at ?s' ja) = [] then []
             else map (\<lambda>e. Unsubscribe e (PassUpdate ja)) (deps (sig_at ?s' ja)))"
        using w cl unfolding wired_def by (auto simp: lj)
    qed
    then show ?thesis using PassUpdate P(1) by (simp add: part_add_def)
  qed
qed

lemma grows_statics:
  "grows s s' \<Longrightarrow> length (sigs s') = length (sigs s) \<and>
     (\<forall>j < length (sigs s). deps (sig_at s' j) = deps (sig_at s j) \<and> kind (sig_at s' j) = kind (sig_at s j))"
  by (simp add: grows_def)

lemma subscribe_deps_wired:
  fixes w :: "'v world"
  assumes IH: "\<And>(s :: 'v world) part j l c s'. wired s part \<Longrightarrow> j < length (sigs s) \<Longrightarrow> part j = None \<Longrightarrow>
      addable s part j l \<Longrightarrow> (\<forall>p P. part p = Some P \<longrightarrow> j < p) \<Longrightarrow>
      subscribe observer d j l s = (Inr c, s') \<Longrightarrow> sub_post s part j l s'"
    and dp: "deps (sig_at w j) = done @ ds"
    and w: "wired w (part(j \<mapsto> set done))"
    and pj: "part j = None"
    and above: "\<forall>p P. part p = Some P \<longrightarrow> j < p"
    and cl: "cleanups (sig_at w j) = map (\<lambda>e. Unsubscribe e (PassUpdate j)) done"
    and run: "subscribe_deps (subscribe observer d) j ds w = (Inr (), w1)"
  shows "wired w1 (part(j \<mapsto> set (deps (sig_at w j)))) \<and>
         cleanups (sig_at w1 j) = map (\<lambda>e. Unsubscribe e (PassUpdate j)) (deps (sig_at w j)) \<and>
         (\<forall>k < length (sigs w). j < k \<longrightarrow> cleanups (sig_at w1 k) = cleanups (sig_at w k)) \<and>
         (\<forall>k < length (sigs w). \<forall>m.
            External m \<in> set (listeners (sig_at w1 k)) \<longleftrightarrow> External m \<in> set (listeners (sig_at w k)))"
  using dp w cl run
proof (induction ds arbitrary: w "done")
  case Nil
  then show ?case by simp
next
  case (Cons e ds)
  let ?pj = "part(j \<mapsto> set done)"
  have jn: "j < length (sigs w)" using Cons.prems(2) by (auto simp: wired_def)
  have ord: "\<forall>x \<in> set (deps (sig_at w j)). x < j"
    and dist: "distinct (deps (sig_at w j))"
    using Cons.prems(2) jn by (simp_all add: wired_def)
  have ej: "e < j" using ord Cons.prems(1) by simp
  have en: "e < length (sigs w)" using ej jn by simp
  have enot: "e \<notin> set done" using dist Cons.prems(1) by simp
  obtain r w' where p: "subscribe observer d e (PassUpdate j) w = (r, w')"
    by (cases "subscribe observer d e (PassUpdate j) w")
  then obtain c where r: "r = Inr c" using Cons.prems(4) by (cases r) simp_all
  have c: "c = Unsubscribe e (PassUpdate j)"
    using subscribe_Inr[of d e "PassUpdate j" w c w'] p r by simp
  have pe: "?pj e = None"
  proof (cases "part e")
    case None then show ?thesis using ej by simp
  next
    case (Some P) then have "j < e" using above by blast
    then show ?thesis using ej by simp
  qed
  have ad: "addable w ?pj e (PassUpdate j)"
    using Cons.prems(1) enot by (simp add: addable_def)
  have ab: "\<forall>p P. ?pj p = Some P \<longrightarrow> e < p"
    using above ej by (auto split: if_splits)
  have pr: "subscribe observer d e (PassUpdate j) w = (Inr c, w')" using p r by simp
  have post: "sub_post w ?pj e (PassUpdate j) w'"
    using IH[OF Cons.prems(2) en pe ad ab pr] .
  have pa: "part_add ?pj e (PassUpdate j) = part(j \<mapsto> set (done @ [e]))"
    by (simp add: part_add_def)
  have g: "grows w w'" using subscribe_grows[of w d e "PassUpdate j"] p by simp
  have len: "length (sigs w') = length (sigs w)" and dj: "deps (sig_at w' j) = deps (sig_at w j)"
    using grows_statics[OF g] jn by simp_all
  let ?w2 = "upd j (\<lambda>g. g\<lparr>cleanups := cleanups g @ [c]\<rparr>) w'"
  have w': "wired w' (part(j \<mapsto> set (done @ [e])))" using post pa by (simp add: sub_post_def)
  have w2: "wired ?w2 (part(j \<mapsto> set (done @ [e])))"
    by (rule wired_pending_cleanups_fn[OF w']) simp
  have clj: "cleanups (sig_at w' j) = cleanups (sig_at w j)"
    using post jn ej by (simp add: sub_post_def)
  have cl2: "cleanups (sig_at ?w2 j) = map (\<lambda>e. Unsubscribe e (PassUpdate j)) (done @ [e])"
    using clj Cons.prems(3) c jn len by (simp add: cleanups_upd_cleanups)
  have dp2: "deps (sig_at ?w2 j) = (done @ [e]) @ ds" using dj Cons.prems(1) by simp
  have run2: "subscribe_deps (subscribe observer d) j ds ?w2 = (Inr (), w1)"
    using Cons.prems(4) p r by simp
  note ih = Cons.IH[OF dp2 w2 cl2 run2]
  have k1: "\<forall>k < length (sigs w). j < k \<longrightarrow> cleanups (sig_at ?w2 k) = cleanups (sig_at w k)"
    using post ej by (auto simp: sub_post_def cleanups_upd_cleanups)
  have k2: "\<forall>k < length (sigs w). \<forall>m.
            External m \<in> set (listeners (sig_at ?w2 k)) \<longleftrightarrow> External m \<in> set (listeners (sig_at w k))"
    using post by (simp add: sub_post_def)
  show ?case using ih k1 k2 dj len by simp
qed

lemma same_skeleton_trans: "same_skeleton s s' \<Longrightarrow> same_skeleton s' s'' \<Longrightarrow> same_skeleton s s''"
  by (simp add: same_skeleton_def)

lemma same_skeleton_upd_val: "same_skeleton s (upd i (\<lambda>g. g\<lparr>val := v\<rparr>) s)"
  by (simp add: same_skeleton_def)

lemma addable_skeleton:
  "addable s part j l \<Longrightarrow> wired s part \<Longrightarrow>
   (\<forall>k < length (sigs s). deps (sig_at s' k) = deps (sig_at s k)) \<Longrightarrow> addable s' part j l"
  by (cases l) (auto simp: addable_def wired_def)

lemma subscribe_wired:
  fixes s :: "'v world"
  assumes "wired s part" "j < length (sigs s)" "part j = None" "addable s part j l"
    "\<forall>p P. part p = Some P \<longrightarrow> j < p" "subscribe observer d j l s = (Inr c, s')"
  shows "sub_post s part j l s'"
  using assms
proof (induction d arbitrary: s part j l c s')
  case 0
  then show ?case by simp
next
  case (Suc d)
  note w = Suc.prems(1) and jn = Suc.prems(2) and pj = Suc.prems(3) and ad = Suc.prems(4)
    and above = Suc.prems(5) and res = Suc.prems(6)
  show ?case
  proof (cases "isWritable (kind (sig_at s j)) \<or> listeners (sig_at s j) \<noteq> []")
    case True
    then have s': "s' = upd j (\<lambda>g. g\<lparr>listeners := set_add l (listeners g)\<rparr>) s"
      using res jn by (auto split: if_splits)
    have "wired s' (part_add part j l)"
      unfolding s' by (rule wired_add_listener[OF w jn pj ad True])
    moreover have "\<forall>k < length (sigs s). \<forall>m.
        External m \<in> set (listeners (sig_at s' k)) \<longleftrightarrow>
        External m \<in> set (listeners (sig_at s k)) \<or> (k = j \<and> l = External m)"
      unfolding s' by (auto simp: listeners_upd_listeners set_add_def)
    ultimately show ?thesis unfolding sub_post_def s' using jn
      by (simp add: listeners_upd_listeners)
  next
    case False
    then have nw: "\<not> isWritable (kind (sig_at s j))" and inact: "listeners (sig_at s j) = []" by auto
    obtain r1 s1 where p1: "subscribe_deps (subscribe observer d) j (deps (sig_at s j)) s = (r1, s1)"
      by (cases "subscribe_deps (subscribe observer d) j (deps (sig_at s j)) s")
    obtain r2 s2 where p2: "recompute (read d) j (kind (sig_at s1 j)) s1 = (r2, s2)"
      by (cases "recompute (read d) j (kind (sig_at s1 j)) s1")
    have r1: "r1 = Inr ()" using res jn nw inact p1 by (cases r1) auto
    obtain nxt where r2: "r2 = Inr nxt" using res jn nw inact p1 r1 p2 by (cases r2) auto
    let ?s2' = "upd j (\<lambda>g. g\<lparr>val := nxt\<rparr>) s2"
    obtain r3 s3 where p3: "invoke observer (passUpdate observer d) l nxt ?s2' = (r3, s3)"
      by (cases "invoke observer (passUpdate observer d) l nxt ?s2'")
    have r3: "r3 = Inr ()" using res jn nw inact p1 r1 p2 r2 p3 by (cases r3) auto
    have s': "s' = upd j (\<lambda>g. g\<lparr>listeners := set_add l (listeners g)\<rparr>) s3"
      using res jn nw inact p1 r1 p2 r2 p3 r3 by simp
    have wb: "wired s (part(j \<mapsto> set []))"
      using wired_begin[OF w jn nw pj inact] by simp
    have cl0: "cleanups (sig_at s j) = map (\<lambda>e. Unsubscribe e (PassUpdate j)) []"
      using w jn nw pj inact by (simp add: wired_def)
    have loop: "wired s1 (part(j \<mapsto> set (deps (sig_at s j)))) \<and>
         cleanups (sig_at s1 j) = map (\<lambda>e. Unsubscribe e (PassUpdate j)) (deps (sig_at s j)) \<and>
         (\<forall>k < length (sigs s). j < k \<longrightarrow> cleanups (sig_at s1 k) = cleanups (sig_at s k)) \<and>
         (\<forall>k < length (sigs s). \<forall>m.
            External m \<in> set (listeners (sig_at s1 k)) \<longleftrightarrow> External m \<in> set (listeners (sig_at s k)))"
      by (rule subscribe_deps_wired[where d = d and ds = "deps (sig_at s j)" and ?done = "[]" and part = part])
         (erule Suc.IH, assumption+, simp, rule wb, rule pj, rule above, rule cl0, use p1 r1 in simp)
    have g1: "grows s s1"
    proof -
      have "grows s (snd (subscribe_deps (subscribe observer d) j (deps (sig_at s j)) s))"
        by (rule subscribe_deps_rel)
           (rule grows_refl, erule grows_trans, assumption, rule subscribe_grows, rule grows_add_cleanup)
      then show ?thesis using p1 by simp
    qed
    have st1: "length (sigs s1) = length (sigs s)"
      "\<forall>k < length (sigs s). deps (sig_at s1 k) = deps (sig_at s k)"
      using grows_statics[OF g1] by simp_all
    have "same_frame s1 (snd (recompute (read d) j (kind (sig_at s1 j)) s1))"
      by (rule recompute_same_frame) (rule read_same_frame)
    then have k12: "same_skeleton s1 s2" using p2 same_frame_skeleton by fastforce
    have "same_frame ?s2' (snd (invoke observer (passUpdate observer d) l nxt ?s2'))" by (rule invoke_same_frame)
    then have k23: "same_skeleton ?s2' s3" using p3 same_frame_skeleton by fastforce
    have k13: "same_skeleton s1 s3"
      using same_skeleton_trans[OF same_skeleton_trans[OF k12 same_skeleton_upd_val] k23] .
    have sk: "length (sigs s3) = length (sigs s)"
      "\<And>k. k < length (sigs s) \<Longrightarrow> listeners (sig_at s3 k) = listeners (sig_at s1 k)"
      "\<And>k. k < length (sigs s) \<Longrightarrow> cleanups (sig_at s3 k) = cleanups (sig_at s1 k)"
      "\<And>k. k < length (sigs s) \<Longrightarrow> deps (sig_at s3 k) = deps (sig_at s k)"
      using k13 st1 by (simp_all add: same_skeleton_def)
    have w3: "wired s3 (part(j \<mapsto> set (deps (sig_at s3 j))))"
      using wired_skeleton[OF k13] loop sk(4)[OF jn] by simp
    have cl3: "cleanups (sig_at s3 j) = map (\<lambda>e. Unsubscribe e (PassUpdate j)) (deps (sig_at s3 j))"
      using loop sk(3)[OF jn] sk(4)[OF jn] by simp
    have ad3: "addable s3 part j l"
      by (rule addable_skeleton[OF ad w]) (use sk(4) in simp)
    have wf: "wired s' (part_add part j l)"
      unfolding s' by (rule wired_activate[OF w3 pj ad3 cl3])
    have fr: "\<forall>k < length (sigs s). j < k \<longrightarrow> cleanups (sig_at s' k) = cleanups (sig_at s k)"
      unfolding s' using loop sk(3) by simp
    have l3: "listeners (sig_at s3 j) = []" using w3 by (auto simp: wired_def)
    have ex: "\<forall>k < length (sigs s). \<forall>m.
        External m \<in> set (listeners (sig_at s' k)) \<longleftrightarrow>
        External m \<in> set (listeners (sig_at s k)) \<or> (k = j \<and> l = External m)"
      unfolding s' using loop sk(1,2) l3 inact
      by (auto simp: listeners_upd_listeners set_add_def)
    have ls: "listeners (sig_at s' j) = set_add l (listeners (sig_at s j))"
      unfolding s' using jn sk(1) l3 inact by (simp add: listeners_upd_listeners)
    show ?thesis unfolding sub_post_def using wf fr ex ls by simp
  qed
qed

lemma wired_remove_listener:
  assumes w: "wired s part" and j: "j < length (sigs s)" and pj: "part j = None"
    and rm: "removable part j l"
    and keep: "isWritable (kind (sig_at s j)) \<or> removeAll l (listeners (sig_at s j)) \<noteq> [] \<or>
               listeners (sig_at s j) = []"
  shows "wired (upd j (\<lambda>g. g\<lparr>listeners := removeAll l (listeners g)\<rparr>) s) (part_del part j l)"
proof -
  let ?s' = "upd j (\<lambda>g. g\<lparr>listeners := removeAll l (listeners g)\<rparr>) s"
  have lj: "listeners (sig_at ?s' k) = (if k = j then removeAll l (listeners (sig_at s j)) else listeners (sig_at s k))" for k
    using j by (simp add: listeners_upd_listeners)
  have hold: "\<forall>e<length (sigs s). \<forall>x. (PassUpdate x \<in> set (listeners (sig_at s e))) = (e \<in> held_by s part x)"
    using w by (simp add: wired_def)
  have emp: "(removeAll l (listeners (sig_at s j)) = []) = (listeners (sig_at s j) = [])"
    if "\<not> isWritable (kind (sig_at s j))"
    using keep that by auto
  show ?thesis
  proof (cases l)
    case (External m)
    have h: "held_by ?s' part x = held_by s part x" for x
      using j emp by (cases "x = j") (auto simp: held_by_def lj split: option.splits)
    have "wired ?s' part"
      unfolding wired_def h
    proof (intro conjI)
      show "\<forall>ja<length (sigs ?s'). \<forall>e\<in>set (deps (sig_at ?s' ja)). e < ja"
        using w by (auto simp: wired_def)
      show "\<forall>ja<length (sigs ?s'). distinct (deps (sig_at ?s' ja)) \<and> distinct (listeners (sig_at ?s' ja))"
        using w by (auto simp: wired_def lj distinct_removeAll)
      show "\<forall>ja P. part ja = Some P \<longrightarrow>
          ja < length (sigs ?s') \<and> \<not> isWritable (kind (sig_at ?s' ja)) \<and>
          listeners (sig_at ?s' ja) = [] \<and> P \<subseteq> set (deps (sig_at ?s' ja))"
        using w pj unfolding wired_def by (auto simp: lj)
      show "\<forall>e<length (sigs ?s'). \<forall>x. (PassUpdate x \<in> set (listeners (sig_at ?s' e))) = (e \<in> held_by s part x)"
        unfolding lj using hold External by auto
      show "\<forall>ja<length (sigs ?s'). \<not> isWritable (kind (sig_at ?s' ja)) \<longrightarrow> part ja = None \<longrightarrow>
          cleanups (sig_at ?s' ja) =
            (if listeners (sig_at ?s' ja) = [] then []
             else map (\<lambda>e. Unsubscribe e (PassUpdate ja)) (deps (sig_at ?s' ja)))"
        using w emp unfolding wired_def by (auto simp: lj)
    qed
    then show ?thesis using External by (simp add: part_del_def)
  next
    case (PassUpdate p)
    then obtain P where P: "part p = Some P" "j \<in> P"
      using rm by (auto simp: removable_def)
    have pj': "p \<noteq> j" using P(1) pj by auto
    have pn: "p < length (sigs s)" "\<not> isWritable (kind (sig_at s p))" "listeners (sig_at s p) = []"
      "P \<subseteq> set (deps (sig_at s p))"
      using w P(1) unfolding wired_def by blast+
    let ?part' = "part(p \<mapsto> P - {j})"
    have hp: "held_by s part p = P" using pn P(1) by (simp add: held_by_def)
    have h: "held_by ?s' ?part' x = (if x = p then P - {j} else held_by s part x)" for x
      using j pj pn pj' P(1) emp by (cases "x = j") (auto simp: held_by_def lj split: option.splits)
    have "wired ?s' ?part'"
      unfolding wired_def h
    proof (intro conjI)
      show "\<forall>ja<length (sigs ?s'). \<forall>e\<in>set (deps (sig_at ?s' ja)). e < ja"
        using w by (auto simp: wired_def)
      show "\<forall>ja<length (sigs ?s'). distinct (deps (sig_at ?s' ja)) \<and> distinct (listeners (sig_at ?s' ja))"
        using w by (auto simp: wired_def lj distinct_removeAll)
      show "\<forall>ja Pa. ?part' ja = Some Pa \<longrightarrow>
          ja < length (sigs ?s') \<and> \<not> isWritable (kind (sig_at ?s' ja)) \<and>
          listeners (sig_at ?s' ja) = [] \<and> Pa \<subseteq> set (deps (sig_at ?s' ja))"
      proof (intro allI impI)
        fix ja Pa assume a: "?part' ja = Some Pa"
        show "ja < length (sigs ?s') \<and> \<not> isWritable (kind (sig_at ?s' ja)) \<and>
          listeners (sig_at ?s' ja) = [] \<and> Pa \<subseteq> set (deps (sig_at ?s' ja))"
        proof (cases "ja = p")
          case True
          then show ?thesis using a pn pj' by (auto simp: lj)
        next
          case False
          then have b: "part ja = Some Pa" using a by simp
          then have "ja \<noteq> j" using pj by auto
          then show ?thesis using w b unfolding wired_def by (simp add: lj)
        qed
      qed
      show "\<forall>e<length (sigs ?s'). \<forall>x. (PassUpdate x \<in> set (listeners (sig_at ?s' e))) =
          (e \<in> (if x = p then P - {j} else held_by s part x))"
        unfolding lj using hold hp PassUpdate by auto
      show "\<forall>ja<length (sigs ?s'). \<not> isWritable (kind (sig_at ?s' ja)) \<longrightarrow> ?part' ja = None \<longrightarrow>
          cleanups (sig_at ?s' ja) =
            (if listeners (sig_at ?s' ja) = [] then []
             else map (\<lambda>e. Unsubscribe e (PassUpdate ja)) (deps (sig_at ?s' ja)))"
        using w emp unfolding wired_def by (auto simp: lj)
    qed
    then show ?thesis using PassUpdate P(1) by (simp add: part_del_def)
  qed
qed

lemma part_del_same: "part j = None \<Longrightarrow> part_del part j l j = None"
  by (auto simp: part_del_def split: listener.splits option.splits)

lemma part_del_above:
  "\<forall>p P. part p = Some P \<longrightarrow> j < p \<Longrightarrow> \<forall>p P. part_del part j l p = Some P \<longrightarrow> j < p"
  by (auto simp: part_del_def split: listener.splits option.splits if_splits)

lemma wired_deactivate_begin:
  assumes w: "wired s part" and j: "j < length (sigs s)" and pj: "part j = None"
    and nw: "\<not> isWritable (kind (sig_at s j))"
    and rm: "removable part j l"
    and act: "listeners (sig_at s j) \<noteq> []"
    and last: "removeAll l (listeners (sig_at s j)) = []"
  shows "wired (upd j (\<lambda>g. g\<lparr>listeners := removeAll l (listeners g)\<rparr>) s)
           ((part_del part j l)(j \<mapsto> set (deps (sig_at s j))))"
proof -
  let ?s' = "upd j (\<lambda>g. g\<lparr>listeners := removeAll l (listeners g)\<rparr>) s"
  have lj: "listeners (sig_at ?s' k) = (if k = j then [] else listeners (sig_at s k))" for k
    using j last by (simp add: listeners_upd_listeners)
  have only: "set (listeners (sig_at s j)) = {l}"
    using act last by (auto simp: removeAll_filter_not_eq filter_empty_conv
        intro: list.set_sel(1))
  have hold: "\<forall>e<length (sigs s). \<forall>x. (PassUpdate x \<in> set (listeners (sig_at s e))) = (e \<in> held_by s part x)"
    using w by (simp add: wired_def)
  have hj: "held_by s part j = set (deps (sig_at s j))"
    using j nw pj act by (simp add: held_by_def)
  have ord: "\<forall>e \<in> set (deps (sig_at s j)). e < j" using w j by (simp add: wired_def)
  show ?thesis
  proof (cases l)
    case (External m)
    let ?part' = "part(j \<mapsto> set (deps (sig_at s j)))"
    have h: "held_by ?s' ?part' x = held_by s part x" for x
      using j nw hj by (cases "x = j") (auto simp: held_by_def lj last split: option.splits)
    have nopu: "j \<notin> held_by s part x" for x
      using hold j only External by auto
    have "wired ?s' ?part'"
      unfolding wired_def h
    proof (intro conjI)
      show "\<forall>ja<length (sigs ?s'). \<forall>e\<in>set (deps (sig_at ?s' ja)). e < ja"
        using w by (auto simp: wired_def)
      show "\<forall>ja<length (sigs ?s'). distinct (deps (sig_at ?s' ja)) \<and> distinct (listeners (sig_at ?s' ja))"
        using w by (auto simp: wired_def lj)
      show "\<forall>ja P. ?part' ja = Some P \<longrightarrow>
          ja < length (sigs ?s') \<and> \<not> isWritable (kind (sig_at ?s' ja)) \<and>
          listeners (sig_at ?s' ja) = [] \<and> P \<subseteq> set (deps (sig_at ?s' ja))"
        using w j nw unfolding wired_def by (auto simp: lj last)
      show "\<forall>e<length (sigs ?s'). \<forall>x. (PassUpdate x \<in> set (listeners (sig_at ?s' e))) = (e \<in> held_by s part x)"
        unfolding lj using hold nopu by auto
      show "\<forall>ja<length (sigs ?s'). \<not> isWritable (kind (sig_at ?s' ja)) \<longrightarrow> ?part' ja = None \<longrightarrow>
          cleanups (sig_at ?s' ja) =
            (if listeners (sig_at ?s' ja) = [] then []
             else map (\<lambda>e. Unsubscribe e (PassUpdate ja)) (deps (sig_at ?s' ja)))"
        using w unfolding wired_def by (auto simp: lj last)
    qed
    then show ?thesis using External by (simp add: part_del_def)
  next
    case (PassUpdate p)
    then obtain P where P: "part p = Some P" "j \<in> P"
      using rm by (auto simp: removable_def)
    have pj': "p \<noteq> j" using P(1) pj by auto
    have pn: "p < length (sigs s)" "\<not> isWritable (kind (sig_at s p))" "listeners (sig_at s p) = []"
      "P \<subseteq> set (deps (sig_at s p))"
      using w P(1) unfolding wired_def by blast+
    let ?part' = "(part(p \<mapsto> P - {j}))(j \<mapsto> set (deps (sig_at s j)))"
    have hp: "held_by s part p = P" using pn P(1) by (simp add: held_by_def)
    have h: "held_by ?s' ?part' x = (if x = p then P - {j} else held_by s part x)" for x
      using j nw hj pn pj' P(1) by (cases "x = j") (auto simp: held_by_def lj last split: option.splits)
    have nopu: "j \<in> held_by s part x \<longleftrightarrow> x = p" for x
      using hold j only PassUpdate by auto
    have "wired ?s' ?part'"
      unfolding wired_def h
    proof (intro conjI)
      show "\<forall>ja<length (sigs ?s'). \<forall>e\<in>set (deps (sig_at ?s' ja)). e < ja"
        using w by (auto simp: wired_def)
      show "\<forall>ja<length (sigs ?s'). distinct (deps (sig_at ?s' ja)) \<and> distinct (listeners (sig_at ?s' ja))"
        using w by (auto simp: wired_def lj)
      show "\<forall>ja Pa. ?part' ja = Some Pa \<longrightarrow>
          ja < length (sigs ?s') \<and> \<not> isWritable (kind (sig_at ?s' ja)) \<and>
          listeners (sig_at ?s' ja) = [] \<and> Pa \<subseteq> set (deps (sig_at ?s' ja))"
      proof (intro allI impI)
        fix ja Pa assume a: "?part' ja = Some Pa"
        show "ja < length (sigs ?s') \<and> \<not> isWritable (kind (sig_at ?s' ja)) \<and>
          listeners (sig_at ?s' ja) = [] \<and> Pa \<subseteq> set (deps (sig_at ?s' ja))"
        proof (cases "ja = j")
          case True
          then show ?thesis using a j nw by (auto simp: lj last)
        next
          case nj: False
          show ?thesis
          proof (cases "ja = p")
            case True
            then show ?thesis using a pn pj' by (auto simp: lj last)
          next
            case False
            then have b: "part ja = Some Pa" using a nj by simp
            then show ?thesis using w nj unfolding wired_def by (simp add: lj last)
          qed
        qed
      qed
      show "\<forall>e<length (sigs ?s'). \<forall>x. (PassUpdate x \<in> set (listeners (sig_at ?s' e))) =
          (e \<in> (if x = p then P - {j} else held_by s part x))"
        unfolding lj using hold hp nopu by auto
      show "\<forall>ja<length (sigs ?s'). \<not> isWritable (kind (sig_at ?s' ja)) \<longrightarrow> ?part' ja = None \<longrightarrow>
          cleanups (sig_at ?s' ja) =
            (if listeners (sig_at ?s' ja) = [] then []
             else map (\<lambda>e. Unsubscribe e (PassUpdate ja)) (deps (sig_at ?s' ja)))"
        using w unfolding wired_def by (auto simp: lj last)
    qed
    then show ?thesis using PassUpdate P(1) by (simp add: part_del_def)
  qed
qed

lemma wired_drained:
  assumes w: "wired s (part(j \<mapsto> {}))" and pj: "part j = None"
  shows "wired (upd j (\<lambda>g. g\<lparr>cleanups := []\<rparr>) s) part"
proof -
  let ?s' = "upd j (\<lambda>g. g\<lparr>cleanups := []\<rparr>) s"
  have jn: "j < length (sigs s)" "\<not> isWritable (kind (sig_at s j))" "listeners (sig_at s j) = []"
    using w by (auto simp: wired_def)
  have h: "held_by ?s' part x = held_by s (part(j \<mapsto> {})) x" for x
    using jn pj by (cases "x = j") (auto simp: held_by_def split: option.splits)
  show ?thesis
    unfolding wired_def h
  proof (intro conjI)
    show "\<forall>ja<length (sigs ?s'). \<forall>e\<in>set (deps (sig_at ?s' ja)). e < ja"
      using w by (auto simp: wired_def)
    show "\<forall>ja<length (sigs ?s'). distinct (deps (sig_at ?s' ja)) \<and> distinct (listeners (sig_at ?s' ja))"
      using w by (auto simp: wired_def)
    show "\<forall>ja P. part ja = Some P \<longrightarrow>
        ja < length (sigs ?s') \<and> \<not> isWritable (kind (sig_at ?s' ja)) \<and>
        listeners (sig_at ?s' ja) = [] \<and> P \<subseteq> set (deps (sig_at ?s' ja))"
    proof (intro allI impI)
      fix ja P assume a: "part ja = Some P"
      then have "ja \<noteq> j" using pj by auto
      then have "(part(j \<mapsto> {})) ja = Some P" using a by simp
      then show "ja < length (sigs ?s') \<and> \<not> isWritable (kind (sig_at ?s' ja)) \<and>
        listeners (sig_at ?s' ja) = [] \<and> P \<subseteq> set (deps (sig_at ?s' ja))"
        using w unfolding wired_def by simp
    qed
    show "\<forall>e<length (sigs ?s'). \<forall>x. (PassUpdate x \<in> set (listeners (sig_at ?s' e))) =
        (e \<in> held_by s (part(j \<mapsto> {})) x)"
      using w by (simp add: wired_def)
    show "\<forall>ja<length (sigs ?s'). \<not> isWritable (kind (sig_at ?s' ja)) \<longrightarrow> part ja = None \<longrightarrow>
        cleanups (sig_at ?s' ja) =
          (if listeners (sig_at ?s' ja) = [] then []
           else map (\<lambda>e. Unsubscribe e (PassUpdate ja)) (deps (sig_at ?s' ja)))"
      using w jn unfolding wired_def by (auto simp: cleanups_upd_cleanups_const)
  qed
qed

lemma run_cleanups_wired:
  fixes w :: "'v world"
  assumes IH: "\<And>(s :: 'v world) part j l s'. wired s part \<Longrightarrow> j < length (sigs s) \<Longrightarrow> part j = None \<Longrightarrow>
      removable part j l \<Longrightarrow> (\<forall>p P. part p = Some P \<longrightarrow> j < p) \<Longrightarrow>
      unsubscribe d (Unsubscribe j l) s = (Inr (), s') \<Longrightarrow> unsub_post s part j l s'"
    and dp: "deps (sig_at w j) = done @ ds"
    and w: "wired w (part(j \<mapsto> set ds))"
    and pj: "part j = None"
    and above: "\<forall>p P. part p = Some P \<longrightarrow> j < p"
    and run: "run_cleanups (unsubscribe d) (map (\<lambda>e. Unsubscribe e (PassUpdate j)) ds) w = (Inr (), w1)"
  shows "wired w1 (part(j \<mapsto> {})) \<and>
         length (sigs w1) = length (sigs w) \<and>
         (\<forall>k < length (sigs w).
            deps (sig_at w1 k) = deps (sig_at w k) \<and> kind (sig_at w1 k) = kind (sig_at w k)) \<and>
         (\<forall>k < length (sigs w). \<forall>m.
            External m \<in> set (listeners (sig_at w1 k)) \<longleftrightarrow> External m \<in> set (listeners (sig_at w k)))"
  using dp w run
proof (induction ds arbitrary: w "done")
  case Nil
  then show ?case by simp
next
  case (Cons e ds)
  let ?pj = "part(j \<mapsto> set (e # ds))"
  have jn: "j < length (sigs w)" using Cons.prems(2) by (auto simp: wired_def)
  have ord: "\<forall>x \<in> set (deps (sig_at w j)). x < j"
    and dist: "distinct (deps (sig_at w j))"
    using Cons.prems(2) jn by (simp_all add: wired_def)
  have ej: "e < j" using ord Cons.prems(1) by simp
  have en: "e < length (sigs w)" using ej jn by simp
  have enot: "e \<notin> set ds" using dist Cons.prems(1) by simp
  obtain r w' where p: "unsubscribe d (Unsubscribe e (PassUpdate j)) w = (r, w')"
    by (cases "unsubscribe d (Unsubscribe e (PassUpdate j)) w")
  then have r: "r = Inr ()" using Cons.prems(3) by (cases r) simp_all
  have pr: "unsubscribe d (Unsubscribe e (PassUpdate j)) w = (Inr (), w')" using p r by simp
  have pe: "?pj e = None"
  proof (cases "part e")
    case None then show ?thesis using ej by simp
  next
    case (Some P) then have "j < e" using above by blast
    then show ?thesis using ej by simp
  qed
  have rm: "removable ?pj e (PassUpdate j)" by (simp add: removable_def)
  have ab: "\<forall>p P. ?pj p = Some P \<longrightarrow> e < p"
    using above ej by (auto split: if_splits)
  have post: "unsub_post w ?pj e (PassUpdate j) w'"
    using IH[OF Cons.prems(2) en pe rm ab pr] .
  have pa: "part_del ?pj e (PassUpdate j) = part(j \<mapsto> set ds)"
    using enot by (simp add: part_del_def)
  have w': "wired w' (part(j \<mapsto> set ds))" using post pa by (simp add: unsub_post_def)
  have len: "length (sigs w') = length (sigs w)" and dj: "deps (sig_at w' j) = deps (sig_at w j)"
    using post jn by (simp_all add: unsub_post_def)
  have dp2: "deps (sig_at w' j) = (done @ [e]) @ ds" using dj Cons.prems(1) by simp
  have run2: "run_cleanups (unsubscribe d) (map (\<lambda>e. Unsubscribe e (PassUpdate j)) ds) w' = (Inr (), w1)"
    using Cons.prems(3) p r by simp
  note ih = Cons.IH[OF dp2 w' run2]
  have k1: "\<forall>k < length (sigs w).
            deps (sig_at w' k) = deps (sig_at w k) \<and> kind (sig_at w' k) = kind (sig_at w k)"
    using post by (simp add: unsub_post_def)
  have k2: "\<forall>k < length (sigs w). \<forall>m.
            External m \<in> set (listeners (sig_at w' k)) \<longleftrightarrow> External m \<in> set (listeners (sig_at w k))"
    using post by (simp add: unsub_post_def)
  show ?case using ih k1 k2 len by simp
qed

lemma unsubscribe_Suc:
  "j < length (sigs s) \<Longrightarrow>
   unsubscribe (Suc d) (Unsubscribe j l) s =
     (if isWritable (kind (sig_at s j))
      then (Inr (), upd j (\<lambda>g. g\<lparr>listeners := removeAll l (listeners g)\<rparr>) s)
      else if removeAll l (listeners (sig_at s j)) = [] then
        (case run_cleanups (unsubscribe d) (cleanups (sig_at s j))
                (upd j (\<lambda>g. g\<lparr>listeners := removeAll l (listeners g)\<rparr>) s) of
           (Inl e, s2) \<Rightarrow> (Inl e, s2)
         | (Inr u, s2) \<Rightarrow> (Inr (), upd j (\<lambda>g. g\<lparr>cleanups := []\<rparr>) s2))
      else (Inr (), upd j (\<lambda>g. g\<lparr>listeners := removeAll l (listeners g)\<rparr>) s))"
  by (simp add: Let_def set_delete_def listeners_upd_listeners cong: if_cong)

lemma unsubscribe_wired:
  fixes s :: "'v world"
  assumes "wired s part" "j < length (sigs s)" "part j = None" "removable part j l"
    "\<forall>p P. part p = Some P \<longrightarrow> j < p" "unsubscribe d (Unsubscribe j l) s = (Inr (), s')"
  shows "unsub_post s part j l s'"
  using assms
proof (induction d arbitrary: s part j l s')
  case 0
  then show ?case by simp
next
  case (Suc d)
  note w = Suc.prems(1) and jn = Suc.prems(2) and pj = Suc.prems(3) and rm = Suc.prems(4)
    and above = Suc.prems(5) and res = Suc.prems(6)
  let ?s1 = "upd j (\<lambda>g. g\<lparr>listeners := removeAll l (listeners g)\<rparr>) s"
  have res': "(if isWritable (kind (sig_at s j)) then (Inr (), ?s1)
              else if removeAll l (listeners (sig_at s j)) = [] then
                (case run_cleanups (unsubscribe d) (cleanups (sig_at s j)) ?s1 of
                   (Inl e, s2) \<Rightarrow> (Inl e, s2)
                 | (Inr u, s2) \<Rightarrow> (Inr (), upd j (\<lambda>g. g\<lparr>cleanups := []\<rparr>) s2))
              else (Inr (), ?s1)) = (Inr (), s')"
    using res unfolding unsubscribe_Suc[OF jn] .
  have ex1: "\<forall>k < length (sigs s). \<forall>m.
        External m \<in> set (listeners (sig_at ?s1 k)) \<longleftrightarrow>
        External m \<in> set (listeners (sig_at s k)) \<and> \<not> (k = j \<and> l = External m)"
    by (auto simp: listeners_upd_listeners)
  show ?case
  proof (cases "isWritable (kind (sig_at s j)) \<or> removeAll l (listeners (sig_at s j)) \<noteq> []")
    case True
    then have s': "s' = ?s1" using res' by (auto split: if_splits)
    have "wired ?s1 (part_del part j l)"
      by (rule wired_remove_listener[OF w jn pj rm]) (use True in blast)
    then show ?thesis unfolding unsub_post_def s' using ex1 by simp
  next
    case False
    then have nw: "\<not> isWritable (kind (sig_at s j))"
      and last: "removeAll l (listeners (sig_at s j)) = []" by auto
    obtain r s2 where p: "run_cleanups (unsubscribe d) (cleanups (sig_at s j)) ?s1 = (r, s2)"
      by (cases "run_cleanups (unsubscribe d) (cleanups (sig_at s j)) ?s1")
    have r: "r = Inr ()" using res' nw last p by (cases r) auto
    have s': "s' = upd j (\<lambda>g. g\<lparr>cleanups := []\<rparr>) s2" using res' nw last p r by simp
    let ?part' = "part_del part j l"
    have pj': "?part' j = None" using pj by (rule part_del_same)
    have above': "\<forall>p P. ?part' p = Some P \<longrightarrow> j < p" using above by (rule part_del_above)
    have fin: "wired s2 (?part'(j \<mapsto> {})) \<and>
         length (sigs s2) = length (sigs ?s1) \<and>
         (\<forall>k < length (sigs ?s1).
            deps (sig_at s2 k) = deps (sig_at ?s1 k) \<and> kind (sig_at s2 k) = kind (sig_at ?s1 k)) \<and>
         (\<forall>k < length (sigs ?s1). \<forall>m.
            External m \<in> set (listeners (sig_at s2 k)) \<longleftrightarrow> External m \<in> set (listeners (sig_at ?s1 k)))"
    proof (cases "listeners (sig_at s j) = []")
      case True
      have "cleanups (sig_at s j) = []" using w jn nw pj True by (simp add: wired_def)
      then have e: "s2 = ?s1" using p by simp
      have w1: "wired ?s1 ?part'"
        by (rule wired_remove_listener[OF w jn pj rm]) (use True in blast)
      have "wired ?s1 (?part'(j \<mapsto> {}))"
        by (rule wired_begin[OF w1 _ _ pj']) (use jn nw True in \<open>simp_all add: listeners_upd_listeners\<close>)
      then show ?thesis using e by simp
    next
      case False
      have cl: "cleanups (sig_at s j) = map (\<lambda>e. Unsubscribe e (PassUpdate j)) (deps (sig_at s j))"
        using w jn nw pj False by (simp add: wired_def)
      have w1: "wired ?s1 (?part'(j \<mapsto> set (deps (sig_at s j))))"
        by (rule wired_deactivate_begin[OF w jn pj nw rm False last])
      have dp: "deps (sig_at ?s1 j) = [] @ deps (sig_at s j)" by simp
      have run: "run_cleanups (unsubscribe d) (map (\<lambda>e. Unsubscribe e (PassUpdate j)) (deps (sig_at s j))) ?s1 = (Inr (), s2)"
        using p r cl by simp
      show ?thesis
        by (rule run_cleanups_wired[where d = d and ?done = "[]" and ds = "deps (sig_at s j)"])
           (erule Suc.IH, assumption+, rule dp, rule w1, rule pj', rule above', rule run)
    qed
    have wf: "wired s' ?part'"
      unfolding s' by (rule wired_drained) (use fin pj' in simp_all)
    have "\<forall>k < length (sigs s). \<forall>m.
        External m \<in> set (listeners (sig_at s' k)) \<longleftrightarrow>
        External m \<in> set (listeners (sig_at s k)) \<and> \<not> (k = j \<and> l = External m)"
      unfolding s' using fin ex1 by simp
    then show ?thesis unfolding unsub_post_def using wf fin unfolding s' by simp
  qed
qed

lemma deaf_refl: "deaf n s s"
  by (simp add: deaf_def)

lemma deaf_trans: "deaf n s s' \<Longrightarrow> deaf n s' s'' \<Longrightarrow> deaf n s s''"
  by (auto simp: deaf_def)

lemma deaf_executed: "deaf n s (emit (Executed i) s)"
  by (simp add: deaf_def unheld_def calls_to_def)

lemma deaf_register: "deaf n s (register i s)"
  by (simp add: deaf_def unheld_def calls_to_def)

lemma deaf_upd_val: "deaf n s (upd i (\<lambda>g. g\<lparr>val := v\<rparr>) s)"
  by (simp add: deaf_def unheld_def calls_to_def)

lemma deaf_called:
  "j < length (sigs s) \<Longrightarrow> External m \<in> set (listeners (sig_at s j)) \<Longrightarrow> deaf n s (emit (Called m v) s)"
  by (auto simp: deaf_def unheld_def calls_to_def)

lemma passUpdate_deaf: "framed (deaf n) s (snd (passUpdate observer d i s))"
  by (rule passUpdate_rel)
     (rule deaf_refl, erule deaf_trans, assumption, rule deaf_executed, rule deaf_register,
      rule deaf_upd_val, erule deaf_called, assumption)

lemma framed_refl: "(\<And>s. R s s) \<Longrightarrow> framed R s s"
  by (simp add: framed_def)

lemma framed_trans:
  "(\<And>s s' s''. R s s' \<Longrightarrow> R s' s'' \<Longrightarrow> R s s'') \<Longrightarrow> framed R s s' \<Longrightarrow> framed R s' s'' \<Longrightarrow> framed R s s''"
  unfolding framed_def using same_frame_trans by blast

lemma set_signal_deaf: "deaf n s (snd (set_signal observer d i v s))"
proof (cases "length (sigs s) \<le> i \<or> (case kind (sig_at s i) of Computed c \<Rightarrow> True | _ \<Rightarrow> False) \<or>
    equal_fn (sig_at s i) (val (sig_at s i)) v")
  case True
  then show ?thesis by (auto simp: set_signal_def deaf_refl)
next
  case False
  then have i: "i < length (sigs s)" by simp
  let ?s1 = "upd i (\<lambda>g. g\<lparr>val := v\<rparr>) s"
  have inv: "framed (deaf n) w (snd (invoke observer (passUpdate observer d) l x w))"
    if "l \<in> set (listeners (sig_at ?s1 i))" "framed (deaf n) ?s1 w" for l x w
  proof (cases l)
    case (PassUpdate j)
    then show ?thesis using passUpdate_deaf[of n w d j] by (simp add: invoke_observer)
  next
    case (External m)
    have "length (sigs w) = length (sigs ?s1)"
      and "listeners (sig_at w i) = listeners (sig_at ?s1 i)"
      using that(2) i by (simp_all add: framed_def same_frame_def)
    then have "deaf n w (emit (Called m x) w)"
      using deaf_called[of i w m n x] that(1) External i by simp
    then show ?thesis using External by (simp add: invoke_observer framed_def)
  qed
  have "framed (deaf n) ?s1 (snd (notify (invoke observer (passUpdate observer d)) (\<lambda>w. v) (listeners (sig_at ?s1 i)) ?s1))"
    by (rule notify_rel[where ?s0.0 = ?s1])
       (rule framed_refl, rule deaf_refl, erule framed_trans[rotated], assumption,
        erule deaf_trans, assumption, erule inv, assumption, rule framed_refl, rule deaf_refl)
  then have "deaf n ?s1 (snd (notify (invoke observer (passUpdate observer d)) (\<lambda>w. v) (listeners (sig_at ?s1 i)) ?s1))"
    by (simp add: framed_def)
  then have "deaf n s (snd (notify (invoke observer (passUpdate observer d)) (\<lambda>w. v) (listeners (sig_at ?s1 i)) ?s1))"
    by (rule deaf_trans[OF deaf_upd_val])
  then show ?thesis using False by (simp add: set_signal_def Let_def)
qed

lemma doubled_inactive_eq:
  "doubled_inactive =
     \<lparr>sigs = [\<lparr>val = 1, listeners = [], cleanups = [], deps = [],
               equal_fn = defaultEqual, kind = Writable\<rparr>,
              \<lparr>val = 2, listeners = [], cleanups = [], deps = [0],
               equal_fn = defaultEqual, kind = Computed doubled\<rparr>],
      contextStack = [], trace = [Executed 1, Executed 1]\<rparr>"
  by (simp add: doubled_inactive_def one_cell_eq doubled_def eval_defs)

lemma doubled_deps_subscribed:
  "subscribe_deps (subscribe observer (Suc 0)) 1 (deps (sig_at doubled_inactive 1)) doubled_inactive =
     (Inr (),
      doubled_inactive\<lparr>sigs :=
        [(sig_at doubled_inactive 0)\<lparr>listeners := [PassUpdate 1]\<rparr>,
         (sig_at doubled_inactive 1)\<lparr>cleanups := [Unsubscribe 0 (PassUpdate 1)]\<rparr>]\<rparr>)"
  by (simp add: doubled_inactive_eq eval_defs)

lemma doubled_subscribe:
  "subscribe observer (Suc (Suc 0)) 1 (External 7) doubled_inactive =
     (Inr (Unsubscribe 1 (External 7)), doubled_active)"
  by (simp add: doubled_inactive_eq doubled_active_def doubled_def eval_defs)

lemma doubled_unsubscribe:
  "unsubscribe (Suc (Suc 0)) (Unsubscribe 1 (External 7)) doubled_active = (Inr (), doubled_released)"
  by (simp add: doubled_active_def doubled_released_def eval_defs)

lemma tracked_refl: "tracked s s"
  by (simp add: tracked_def)

lemma tracked_trans: "tracked s s' \<Longrightarrow> tracked s' s'' \<Longrightarrow> tracked s s''"
  by (simp add: tracked_def)

lemma tracked_emit: "tracked s (emit e s)"
  by (simp add: tracked_def frames_ok_def emit_def split: list.splits)

lemma tracked_upd: "tracked s (upd i f s)"
  by (simp add: tracked_def frames_ok_def upd_def split: list.splits)

lemma tracked_register: "i < length (sigs s) \<Longrightarrow> tracked s (register i s)"
  by (auto simp: tracked_def frames_ok_def register_def set_add_def split: list.splits)

lemma read_tracked: "tracked s (snd (read d i s))"
proof (induction d arbitrary: i s)
  case 0 show ?case by (simp add: tracked_refl)
next
  case (Suc d)
  show ?case
  proof (cases "length (sigs s) \<le> i")
    case True then show ?thesis by (simp add: tracked_refl)
  next
    case inr: False
    define s1 where "s1 = (if isContextOpen s then register i s else s)"
    have a: "tracked s s1" using inr by (simp add: s1_def tracked_refl tracked_register)
    have len1: "length (sigs s1) = length (sigs s)" by (simp add: s1_def)
    show ?thesis
    proof (cases "\<not> isWritable (kind (sig_at s1 i)) \<and> listeners (sig_at s1 i) = []")
      case False
      then show ?thesis using inr a by (auto simp: s1_def Let_def)
    next
      case True
      obtain r s2 where rc: "recompute (read d) i (kind (sig_at s1 i)) s1 = (r, s2)"
        by (cases "recompute (read d) i (kind (sig_at s1 i)) s1")
      have "tracked s1 (snd (recompute (read d) i (kind (sig_at s1 i)) s1))"
        by (rule recompute_rel)
           (rule tracked_refl, erule tracked_trans, assumption, rule Suc, rule read_same_frame,
            rule tracked_emit)
      then have b: "tracked s1 s2" using rc by simp
      show ?thesis
      proof (cases r)
        case (Inl e)
        then show ?thesis using inr True rc tracked_trans[OF a b]
          by (simp add: s1_def[symmetric] Let_def)
      next
        case (Inr v)
        have "tracked s (upd i (\<lambda>g. g\<lparr>val := v\<rparr>) s2)"
          using tracked_trans[OF tracked_trans[OF a b] tracked_upd] .
        then show ?thesis using inr True rc Inr
          by (simp add: s1_def[symmetric] Let_def)
      qed
    qed
  qed
qed

lemma run_tracked: "tracked s (snd (run (read d) c s))"
  by (rule run_rel) (rule tracked_refl, erule tracked_trans, assumption, rule read_tracked)

lemma exec_tracked: "tracked s (snd (exec (read d) i c s))"
  by (rule exec_rel)
     (rule tracked_refl, erule tracked_trans, assumption, rule read_tracked, rule tracked_emit)

lemma scan_bounded:
  assumes act: "\<And>w. tracked w (snd (act w))"
    and sc: "scan act s = (ds, s')"
  shows "distinct ds \<and> (\<forall>e \<in> set ds. e < length (sigs s)) \<and>
         sigs (snd (act (s\<lparr>contextStack := [] # contextStack s\<rparr>))) = sigs s' \<and>
         length (sigs s') = length (sigs s)"
proof -
  let ?s1 = "s\<lparr>contextStack := [] # contextStack s\<rparr>"
  have ok1: "frames_ok ?s1" by (simp add: frames_ok_def)
  have t: "tracked ?s1 (snd (act ?s1))" by (rule act)
  then obtain fr below where st: "contextStack (snd (act ?s1)) = fr # below"
    by (cases "contextStack (snd (act ?s1))") (auto simp: tracked_def)
  have ok2: "frames_ok (snd (act ?s1))" using t ok1 by (simp add: tracked_def)
  have len: "length (sigs (snd (act ?s1))) = length (sigs s)" using t by (simp add: tracked_def)
  have "ds = fr" "s' = (snd (act ?s1))\<lparr>contextStack := below\<rparr>"
    using sc st by (simp_all add: scan_def Let_def)
  then show ?thesis using ok2 st len by (simp add: frames_ok_def)
qed

lemma wired_sigs: "sigs s' = sigs s \<Longrightarrow> wired s part \<Longrightarrow> wired s' part"
  by (rule wired_skeleton[of s s']) (simp_all add: same_skeleton_def sig_at_def)

lemma wired_same_frame: "same_frame s s' \<Longrightarrow> wired s part \<Longrightarrow> wired s' part"
  by (rule wired_skeleton[OF same_frame_skeleton])

lemma wired_append:
  assumes w: "wired s (\<lambda>x. None)" and d: "distinct ds" and b: "\<forall>e \<in> set ds. e < length (sigs s)"
    and g: "listeners g = []" "cleanups g = []" "deps g = ds"
  shows "wired (s\<lparr>sigs := sigs s @ [g]\<rparr>) (\<lambda>x. None)"
proof -
  have ord: "\<forall>j < length (sigs s). \<forall>e \<in> set (deps (sigs s ! j)). e < j"
    using w by (simp add: wired_def sig_at_def)
  have fresh: "\<And>x. x < length (sigs s) \<Longrightarrow> length (sigs s) \<notin> set (deps (sigs s ! x))"
    using ord by fastforce
  show ?thesis
    using assms fresh
    by (auto simp: wired_def held_by_def sig_at_def nth_append less_Suc_eq split: if_splits)
qed

lemma read_Inr_bound: "read d a s = (Inr v, s') \<Longrightarrow> a < length (sigs s)"
  by (cases d) (auto split: if_splits)

lemma signal_wired:
  assumes "wired s (\<lambda>x. None)"
  shows "wired (snd (signal v opts s)) (\<lambda>x. None)"
  unfolding signal_def Let_def snd_conv
  by (rule wired_append[OF assms]) simp_all

lemma computed_wired:
  assumes w: "wired s (\<lambda>x. None)"
  shows "wired (snd (computed d c opts s)) (\<lambda>x. None)"
proof -
  let ?i = "length (sigs s)"
  obtain r s1 where e1: "exec (read d) ?i c s = (r, s1)" by (cases "exec (read d) ?i c s")
  have "same_frame s (snd (exec (read d) ?i c s))" by (rule exec_same_frame) (rule read_same_frame)
  then have sf1: "same_frame s s1" using e1 by simp
  have w1: "wired s1 (\<lambda>x. None)" by (rule wired_same_frame[OF sf1 w])
  show ?thesis
  proof (cases r)
    case (Inl e) then show ?thesis using e1 w1 by (simp add: computed_def Let_def)
  next
    case (Inr v)
    obtain ds s2 where sc: "scan (exec (read d) ?i c) s1 = (ds, s2)"
      by (cases "scan (exec (read d) ?i c) s1")
    let ?p = "s1\<lparr>contextStack := [] # contextStack s1\<rparr>"
    have b: "distinct ds \<and> (\<forall>e \<in> set ds. e < length (sigs s1)) \<and>
         sigs (snd (exec (read d) ?i c ?p)) = sigs s2 \<and> length (sigs s2) = length (sigs s1)"
      by (rule scan_bounded[OF _ sc]) (rule exec_tracked)
    have b1: "distinct ds" "\<forall>e \<in> set ds. e < length (sigs s2)" using b by simp_all
    have "wired ?p (\<lambda>x. None)" by (rule wired_sigs[OF _ w1]) simp
    moreover have "same_frame ?p (snd (exec (read d) ?i c ?p))"
      by (rule exec_same_frame) (rule read_same_frame)
    ultimately have wp: "wired (snd (exec (read d) ?i c ?p)) (\<lambda>x. None)"
      by (rule wired_same_frame[rotated])
    have w2: "wired s2 (\<lambda>x. None)" by (rule wired_sigs[OF _ wp]) (use b in simp)
    have "wired (s2\<lparr>sigs := sigs s2 @
                  [\<lparr>val = v, listeners = [], cleanups = [], deps = ds,
                    equal_fn = (case opts of None \<Rightarrow> defaultEqual | Some e \<Rightarrow> e),
                    kind = Computed c\<rparr>]\<rparr>) (\<lambda>x. None)"
      by (rule wired_append[OF w2, of ds]) (use b1 in simp_all)
    then show ?thesis using e1 Inr sc by (simp add: computed_def Let_def)
  qed
qed

lemma linked_tail_wired:
  assumes w: "wired s0 (\<lambda>x. None)" and dist: "distinct sources"
    and bound: "\<And>v s1. run (read d) srcFn s0 = (Inr v, s1) \<Longrightarrow> \<forall>e \<in> set sources. e < length (sigs s0)"
  shows "wired (snd (case run (read d) srcFn s0 of
           (Inl e, s1) \<Rightarrow> (Inl e, s1)
         | (Inr srcVal, s1) \<Rightarrow>
             (case exec (read d) i (computation srcVal None) s1 of
                (Inl e, s2) \<Rightarrow> (Inl e, s2)
              | (Inr v, s2) \<Rightarrow>
                  (Inr i,
                   s2\<lparr>sigs := sigs s2 @
                       [\<lparr>val = v, listeners = [], cleanups = [], deps = sources,
                         equal_fn = equal, kind = K\<rparr>]\<rparr>)))) (\<lambda>x. None)"
proof -
  obtain r s1 where e1: "run (read d) srcFn s0 = (r, s1)" by (cases "run (read d) srcFn s0")
  have "same_frame s0 (snd (run (read d) srcFn s0))" by (rule run_same_frame) (rule read_same_frame)
  then have sf1: "same_frame s0 s1" using e1 by simp
  have w1: "wired s1 (\<lambda>x. None)" by (rule wired_same_frame[OF sf1 w])
  show ?thesis
  proof (cases r)
    case (Inl e) then show ?thesis using e1 w1 by simp
  next
    case (Inr srcVal)
    obtain r2 s2 where e2: "exec (read d) i (computation srcVal None) s1 = (r2, s2)"
      by (cases "exec (read d) i (computation srcVal None) s1")
    have "same_frame s1 (snd (exec (read d) i (computation srcVal None) s1))"
      by (rule exec_same_frame) (rule read_same_frame)
    then have sf2: "same_frame s1 s2" using e2 by simp
    have w2: "wired s2 (\<lambda>x. None)" by (rule wired_same_frame[OF sf2 w1])
    have len: "length (sigs s2) = length (sigs s0)" using sf1 sf2 by (simp add: same_frame_def)
    show ?thesis
    proof (cases r2)
      case (Inl e) then show ?thesis using e1 Inr e2 w2 by simp
    next
      case inr2: (Inr v)
      have "wired (s2\<lparr>sigs := sigs s2 @
                       [\<lparr>val = v, listeners = [], cleanups = [], deps = sources,
                         equal_fn = equal, kind = K\<rparr>]\<rparr>) (\<lambda>x. None)"
        by (rule wired_append[OF w2, of sources]) (use dist bound[of srcVal s1] e1 Inr len in simp_all)
      then show ?thesis using e1 Inr e2 inr2 by simp
    qed
  qed
qed

lemma run_Read_bound: "run (read d) (Read a Return) s = (Inr v, s') \<Longrightarrow> a < length (sigs s)"
  by (cases "read d a s") (auto split: sum.splits dest: read_Inr_bound)

lemma linkedSignal_wired:
  assumes w: "wired s (\<lambda>x. None)"
  shows "wired (snd (linkedSignal d arg s)) (\<lambda>x. None)"
proof (cases arg)
  case (ArgSignal a)
  show ?thesis unfolding linkedSignal_def Let_def ArgSignal linkedArg.case prod.case
    by (rule linked_tail_wired[OF w]) (simp, drule run_Read_bound, simp)
next
  case (ArgFunction f)
  obtain ds s0 where sc: "scan (run (read d) f) s = (ds, s0)" by (cases "scan (run (read d) f) s")
  let ?p = "s\<lparr>contextStack := [] # contextStack s\<rparr>"
  have b: "distinct ds \<and> (\<forall>e \<in> set ds. e < length (sigs s)) \<and>
       sigs (snd (run (read d) f ?p)) = sigs s0 \<and> length (sigs s0) = length (sigs s)"
    by (rule scan_bounded[OF _ sc]) (rule run_tracked)
  have b1: "distinct ds" "\<forall>e \<in> set ds. e < length (sigs s0)" using b by simp_all
  have "wired ?p (\<lambda>x. None)" by (rule wired_sigs[OF _ w]) simp
  moreover have "same_frame ?p (snd (run (read d) f ?p))"
    by (rule run_same_frame) (rule read_same_frame)
  ultimately have wp: "wired (snd (run (read d) f ?p)) (\<lambda>x. None)"
    by (rule wired_same_frame[rotated])
  have w0: "wired s0 (\<lambda>x. None)" by (rule wired_sigs[OF _ wp]) (use b in simp)
  show ?thesis unfolding linkedSignal_def Let_def ArgFunction linkedArg.case sc prod.case
    by (rule linked_tail_wired[OF w0]) (use b1 in simp_all)
next
  case (ArgConfig source cfn opt)
  show ?thesis unfolding linkedSignal_def Let_def ArgConfig linkedArg.case prod.case
    by (rule linked_tail_wired[OF w]) (simp, drule run_Read_bound, simp)
qed

lemma same_skeleton_refl: "same_skeleton s s"
  by (simp add: same_skeleton_def)

lemma set_signal_skeleton: "same_skeleton s (snd (set_signal observer d i v s))"
proof (cases "length (sigs s) \<le> i \<or> (case kind (sig_at s i) of Computed c \<Rightarrow> True | _ \<Rightarrow> False) \<or>
    equal_fn (sig_at s i) (val (sig_at s i)) v")
  case True
  then show ?thesis by (auto simp: set_signal_def Let_def same_skeleton_refl)
next
  case False
  let ?s1 = "upd i (\<lambda>g. g\<lparr>val := v\<rparr>) s"
  have "same_frame ?s1 (snd (notify (invoke observer (passUpdate observer d)) (\<lambda>w. v) (listeners (sig_at ?s1 i)) ?s1))"
    by (rule notify_same_frame)
  then have "same_skeleton s (snd (notify (invoke observer (passUpdate observer d)) (\<lambda>w. v) (listeners (sig_at ?s1 i)) ?s1))"
    by (rule same_skeleton_trans[OF same_skeleton_upd_val same_frame_skeleton])
  then show ?thesis using False by (simp add: set_signal_def Let_def)
qed

lemma update_skeleton: "same_skeleton s (snd (update observer d i fn s))"
  by (simp add: update_def Let_def same_skeleton_refl set_signal_skeleton)

lemma read_wired: "wired s part \<Longrightarrow> wired (snd (read d i s)) part"
  by (rule wired_same_frame[OF read_same_frame])

lemma set_signal_wired: "wired s part \<Longrightarrow> wired (snd (set_signal observer d i v s)) part"
  by (rule wired_skeleton[OF set_signal_skeleton])

lemma update_wired: "wired s part \<Longrightarrow> wired (snd (update observer d i fn s)) part"
  by (rule wired_skeleton[OF update_skeleton])

lemma subscribe_external_wired:
  assumes w: "wired s (\<lambda>x. None)" and sub: "subscribe observer d i (External n) s = (Inr c, s')"
  shows "wired s' (\<lambda>x. None)"
proof -
  have i: "i < length (sigs s)" using subscribe_Inr[OF sub] by simp
  have "sub_post s (\<lambda>x. None) i (External n) s'"
    by (rule subscribe_wired[OF w i _ _ _ sub]) (simp_all add: addable_def)
  then show ?thesis by (simp add: sub_post_def part_add_def)
qed

lemma unsubscribe_Inr_bound:
  "unsubscribe d (Unsubscribe i l) s = (Inr u, s') \<Longrightarrow> i < length (sigs s)"
  by (cases d) (auto split: if_splits)

lemma unsubscribe_external_wired:
  assumes w: "wired s (\<lambda>x. None)" and un: "unsubscribe d (Unsubscribe i (External n)) s = (Inr (), s')"
  shows "wired s' (\<lambda>x. None)"
proof -
  have i: "i < length (sigs s)" by (rule unsubscribe_Inr_bound[OF un])
  have "unsub_post s (\<lambda>x. None) i (External n) s'"
    by (rule unsubscribe_wired[OF w i _ _ _ un]) (simp_all add: removable_def)
  then show ?thesis by (simp add: unsub_post_def part_del_def)
qed

lemma wired_empty_world: "wired empty_world (\<lambda>x. None)"
  by (simp add: wired_def empty_world_def)

lemma reachable_wired: "reachable s \<Longrightarrow> wired s (\<lambda>x. None)"
proof (induction rule: reachable.induct)
  case start show ?case by (rule wired_empty_world)
next
  case (new_signal s v opts) then show ?case by (blast intro: signal_wired)
next
  case (new_computed s d c opts) then show ?case by (blast intro: computed_wired)
next
  case (new_linked s d arg) then show ?case by (blast intro: linkedSignal_wired)
next
  case (do_read s d i) then show ?case by (blast intro: read_wired)
next
  case (do_set s d i v) then show ?case by (blast intro: set_signal_wired)
next
  case (do_update s d i fn) then show ?case by (blast intro: update_wired)
next
  case (do_subscribe s d i n c s') then show ?case by (blast intro: subscribe_external_wired)
next
  case (do_unsubscribe s d i n s') then show ?case by (blast intro: unsubscribe_external_wired)
qed

lemma reachable_doubled_inactive: "reachable doubled_inactive"
  unfolding doubled_inactive_def one_cell_def
  by (intro reachable.new_computed reachable.new_signal reachable.start)

lemma notify_observers:
  "notify (invoke observer pu) (\<lambda>w. v) (map External ns) s =
     (Inr (), s\<lparr>trace := trace s @ map (\<lambda>n. Called n v) ns\<rparr>)"
  by (induction ns arbitrary: s) (simp_all add: invoke_observer emit_def)

lemma fine_Inr [simp]: "fine allow (Inr x)"
  by (simp add: fine_def)

lemma fine_Inl [simp]: "fine allow (Inl e) \<longleftrightarrow> allow \<and> e = Thrown"
  by (simp add: fine_def)

lemma layered_statics:
  assumes "layered allow s" "length (sigs s') = length (sigs s)"
    "\<And>j. j < length (sigs s) \<Longrightarrow> deps (sig_at s' j) = deps (sig_at s j) \<and> kind (sig_at s' j) = kind (sig_at s j)"
  shows "layered allow s'"
  using assms by (simp add: layered_def)

lemma layered_same_frame: "same_frame s s' \<Longrightarrow> layered allow s \<Longrightarrow> layered allow s'"
  by (rule layered_statics[of allow s s']) (simp_all add: same_frame_def)

lemma kept_refl: "kept b s s"
  by (simp add: kept_def)

lemma kept_trans: "kept b s s' \<Longrightarrow> kept b s' s'' \<Longrightarrow> kept b s s''"
  unfolding kept_def using same_frame_trans by (fastforce simp: same_frame_def)

lemma kept_mono: "kept b s s' \<Longrightarrow> b \<le> b' \<Longrightarrow> kept b' s s'"
  by (simp add: kept_def)

lemma kept_same_frame: "kept b s s' \<Longrightarrow> same_frame s s'"
  by (simp add: kept_def)

lemma executions_emit:
  "executions k (emit e s) = executions k s + (if e = Executed k then 1 else 0)"
  by (simp add: executions_def emit_def)

lemma kept_emit_Executed: "i < b \<Longrightarrow> kept b s (emit (Executed i) s)"
  by (simp add: kept_def executions_emit)

lemma kept_emit_both: "kept b s s' \<Longrightarrow> kept b (emit e s) (emit e s')"
  by (simp add: kept_def executions_emit same_frame_def)

lemma kept_register: "kept b s (register i s)"
proof -
  have "trace (register i s) = trace s" "sigs (register i s) = sigs s"
    by (simp_all add: register_def split: list.splits)
  then have "executions k (register i s) = executions k s"
    "val (sig_at (register i s) k) = val (sig_at s k)" for k
    by (simp_all add: executions_def sig_at_def)
  then show ?thesis by (simp add: kept_def)
qed

lemma kept_upd_val:
  "\<not> isWritable (kind (sig_at s i)) \<Longrightarrow> i < b \<Longrightarrow> kept b s (upd i (\<lambda>g. g\<lparr>val := v\<rparr>) s)"
  by (simp add: kept_def same_frame_upd_val executions_def sig_at_upd)

lemma run_fine:
  assumes rd: "\<And>j w. j < b \<Longrightarrow> same_frame s0 w \<Longrightarrow>
                 fine allow (fst (rd j w)) \<and> kept b w (snd (rd j w))"
    and c: "reads_in allow b c" and s: "same_frame s0 s"
  shows "fine allow (fst (run rd c s)) \<and> kept b s (snd (run rd c s))"
  using c s
proof (induction c arbitrary: s)
  case (Return v) show ?case by (simp add: kept_refl)
next
  case Throw then show ?case by (simp add: kept_refl)
next
  case (Read j k)
  have j: "j < b" and kk: "\<And>v. reads_in allow b (k v)" using Read.prems(1) by simp_all
  obtain r s' where p: "rd j s = (r, s')" by (cases "rd j s")
  have a: "fine allow r" "kept b s s'" using rd[OF j Read.prems(2)] p by simp_all
  have sf: "same_frame s0 s'" using same_frame_trans[OF Read.prems(2) kept_same_frame[OF a(2)]] .
  show ?case
  proof (cases r)
    case (Inl e) then show ?thesis using p a by simp
  next
    case (Inr v)
    have "fine allow (fst (run rd (k v) s')) \<and> kept b s' (snd (run rd (k v) s'))"
      using Read.IH[OF _ kk sf] by blast
    then show ?thesis using p Inr a(2) kept_trans by auto
  qed
qed

lemma exec_kept:
  assumes rd: "\<And>j w. j < i \<Longrightarrow> same_frame s0 w \<Longrightarrow>
                 fine allow (fst (rd j w)) \<and> kept i w (snd (rd j w))"
    and c: "reads_in allow i c" and s: "same_frame s0 s"
  shows "fine allow (fst (exec rd i c s)) \<and> kept i (emit (Executed i) s) (snd (exec rd i c s))"
proof -
  have "same_frame s0 (emit (Executed i) s)"
    by (rule same_frame_trans[OF s same_frame_emit])
  then show ?thesis unfolding exec_def
    by (rule run_fine[where ?s0.0 = s0 and b = i, rotated 2]) (erule (1) rd, rule c)
qed

lemma kept_after_emit:
  assumes "kept i (emit (Executed i) s) s'"
  shows "kept (Suc i) s s'"
  by (rule kept_trans[OF kept_emit_Executed[of i "Suc i" s] kept_mono[OF assms]]) simp_all

lemma recompute_kept:
  assumes rd: "\<And>j w. j < i \<Longrightarrow> same_frame s w \<Longrightarrow>
                 fine allow (fst (rd j w)) \<and> kept i w (snd (rd j w))"
    and ok: "kind_ok allow i k" and nw: "\<not> isWritable k"
  shows "fine allow (fst (recompute rd i k s)) \<and> kept (Suc i) s (snd (recompute rd i k s)) \<and>
         (\<forall>v. fst (recompute rd i k s) = Inr v \<longrightarrow>
            kept i (emit (Executed i) s) (snd (recompute rd i k s)))"
proof (cases k)
  case Writable then show ?thesis using nw by (simp add: isWritable_def)
next
  case (Computed c)
  have c: "reads_in allow i c" using ok Computed by (simp add: kind_ok_def)
  have a: "fine allow (fst (exec rd i c s)) \<and> kept i (emit (Executed i) s) (snd (exec rd i c s))"
    by (rule exec_kept[where ?s0.0 = s]) (erule (1) rd, rule c, rule same_frame_refl)
  then show ?thesis using Computed kept_after_emit[of i s "snd (exec rd i c s)"]
    by (simp add: recompute_def)
next
  case (Linked f g)
  have f: "reads_in allow i f" and g: "\<And>sv prev. reads_in allow i (g sv prev)"
    using ok Linked by (simp_all add: kind_ok_def)
  obtain r s1 where p: "run rd f s = (r, s1)" by (cases "run rd f s")
  have "fine allow (fst (run rd f s)) \<and> kept i s (snd (run rd f s))"
    by (rule run_fine[where ?s0.0 = s]) (erule (1) rd, rule f, rule same_frame_refl)
  then have a: "fine allow r" "kept i s s1" using p by simp_all
  show ?thesis
  proof (cases r)
    case (Inl e)
    then show ?thesis using Linked p a kept_mono[OF a(2), of "Suc i"]
      by (simp add: recompute_def derive_def)
  next
    case (Inr sv)
    let ?c = "g sv (Some (sv, val (sig_at s1 i)))"
    have b: "fine allow (fst (exec rd i ?c s1)) \<and>
             kept i (emit (Executed i) s1) (snd (exec rd i ?c s1))"
      by (rule exec_kept[where ?s0.0 = s]) (erule (1) rd, rule g, rule kept_same_frame[OF a(2)])
    have "kept i (emit (Executed i) s) (snd (exec rd i ?c s1))"
      using kept_trans[OF kept_emit_both[OF a(2)]] b by blast
    then show ?thesis using Linked p Inr b kept_after_emit[of i s "snd (exec rd i ?c s1)"]
      by (simp add: recompute_def derive_def)
  qed
qed

lemma layered_kind_ok:
  "layered allow s \<Longrightarrow> j < length (sigs s) \<Longrightarrow> kind_ok allow j (kind (sig_at s j))"
  by (simp add: layered_def)

lemma read_fine:
  "layered allow s \<Longrightarrow> a < length (sigs s) \<Longrightarrow> a < d \<Longrightarrow>
   fine allow (fst (read d a s)) \<and> kept (Suc a) s (snd (read d a s))"
proof (induction d arbitrary: a s)
  case 0 then show ?case by simp
next
  case (Suc d)
  define s1 where "s1 = (if isContextOpen s then register a s else s)"
  have k1: "kept (Suc a) s s1" by (simp add: s1_def kept_refl kept_register)
  have sf1: "same_frame s s1" by (rule kept_same_frame[OF k1])
  have lay1: "layered allow s1" by (rule layered_same_frame[OF sf1 Suc.prems(1)])
  have len1: "a < length (sigs s1)" using Suc.prems(2) sf1 by (simp add: same_frame_def)
  have inr: "\<not> length (sigs s) \<le> a" using Suc.prems(2) by simp
  show ?case
  proof (cases "\<not> isWritable (kind (sig_at s1 a)) \<and> listeners (sig_at s1 a) = []")
    case False
    then show ?thesis using inr k1 by (auto simp: s1_def[symmetric] Let_def)
  next
    case True
    obtain r s2 where rc: "recompute (read d) a (kind (sig_at s1 a)) s1 = (r, s2)"
      by (cases "recompute (read d) a (kind (sig_at s1 a)) s1")
    have rd: "fine allow (fst (read d j w)) \<and> kept a w (snd (read d j w))"
      if "j < a" "same_frame s1 w" for j w
    proof -
      have "layered allow w" by (rule layered_same_frame[OF that(2) lay1])
      moreover have "j < length (sigs w)" using that len1 by (simp add: same_frame_def)
      moreover have "j < d" using that(1) Suc.prems(3) by simp
      ultimately have "fine allow (fst (read d j w)) \<and> kept (Suc j) w (snd (read d j w))"
        by (rule Suc.IH)
      then show ?thesis using kept_mono[of "Suc j" w _ a] that(1) by auto
    qed
    have "fine allow (fst (recompute (read d) a (kind (sig_at s1 a)) s1)) \<and>
          kept (Suc a) s1 (snd (recompute (read d) a (kind (sig_at s1 a)) s1)) \<and>
          (\<forall>v. fst (recompute (read d) a (kind (sig_at s1 a)) s1) = Inr v \<longrightarrow>
             kept a (emit (Executed a) s1) (snd (recompute (read d) a (kind (sig_at s1 a)) s1)))"
      by (rule recompute_kept)
         (erule (1) rd, rule layered_kind_ok[OF lay1 len1], use True in simp)
    then have b: "fine allow r" "kept (Suc a) s1 s2" using rc by simp_all
    have k2: "kept (Suc a) s s2" by (rule kept_trans[OF k1 b(2)])
    show ?thesis
    proof (cases r)
      case (Inl e)
      then show ?thesis using inr True rc b(1) k2
        by (simp add: s1_def[symmetric] Let_def)
    next
      case (Inr v)
      have "\<not> isWritable (kind (sig_at s2 a))"
        using True len1 kept_same_frame[OF b(2)] by (simp add: same_frame_def)
      then have "kept (Suc a) s2 (upd a (\<lambda>g. g\<lparr>val := v\<rparr>) s2)"
        by (rule kept_upd_val) simp
      then have "kept (Suc a) s (upd a (\<lambda>g. g\<lparr>val := v\<rparr>) s2)"
        by (rule kept_trans[OF k2])
      then show ?thesis using inr True rc Inr
        by (simp add: s1_def[symmetric] Let_def)
    qed
  qed
qed

lemma beyond_refl: "beyond i s s"
  by (simp add: beyond_def grows_refl)

lemma beyond_trans: "beyond i s s' \<Longrightarrow> beyond i s' s'' \<Longrightarrow> beyond i s s''"
  unfolding beyond_def using grows_trans by (fastforce simp: grows_def)

lemma beyond_mono: "beyond i s s' \<Longrightarrow> i \<le> i' \<Longrightarrow> beyond i' s s'"
  by (simp add: beyond_def)

lemma beyond_grows: "beyond i s s' \<Longrightarrow> grows s s'"
  by (simp add: beyond_def)

lemma beyond_length: "beyond i s s' \<Longrightarrow> length (sigs s') = length (sigs s)"
  by (simp add: beyond_def grows_def)

lemma kept_above:
  assumes "kept (Suc i) s s'"
  shows "beyond i s s'"
proof -
  have sf: "same_frame s s'" by (rule kept_same_frame[OF assms])
  have "sig_at s' k = sig_at s k" if "k < length (sigs s)" "i < k" for k
  proof (rule sigstate.equality)
    show "val (sig_at s' k) = val (sig_at s k)" using assms that by (simp add: kept_def)
  qed (use sf that in \<open>simp_all add: same_frame_def\<close>)
  then show ?thesis using assms same_frame_grows[OF sf] by (simp add: beyond_def kept_def)
qed

lemma beyond_upd: "j \<le> i \<Longrightarrow> grows s (upd j f s) \<Longrightarrow> beyond i s (upd j f s)"
  by (simp add: beyond_def sig_at_upd executions_def)

lemma beyond_emit: "\<forall>k. i < k \<longrightarrow> e \<noteq> Executed k \<Longrightarrow> beyond i s (emit e s)"
  by (simp add: beyond_def executions_emit same_frame_grows)

lemma layered_grows: "grows s s' \<Longrightarrow> layered allow s \<Longrightarrow> layered allow s'"
  by (rule layered_statics[of allow s s']) (simp_all add: grows_def)

lemma subscribe_deps_fine:
  fixes s :: "'v world"
  assumes IH: "\<And>e (w :: 'v world). layered allow w \<Longrightarrow> e < length (sigs w) \<Longrightarrow> Suc e < d \<Longrightarrow>
        internal (PassUpdate i) e w \<Longrightarrow>
        fine allow (fst (subscribe observer d e (PassUpdate i) w)) \<and>
        beyond e w (snd (subscribe observer d e (PassUpdate i) w))"
    and lay: "layered allow s" and i: "i < length (sigs s)" and ds: "\<forall>e \<in> set ds. e < i"
    and fuel: "i < d" and inactive: "listeners (sig_at s i) = []"
  shows "fine allow (fst (subscribe_deps (subscribe observer d) i ds s)) \<and>
         beyond i s (snd (subscribe_deps (subscribe observer d) i ds s)) \<and>
         listeners (sig_at (snd (subscribe_deps (subscribe observer d) i ds s)) i) = [] \<and>
         val (sig_at (snd (subscribe_deps (subscribe observer d) i ds s)) i) = val (sig_at s i) \<and>
         executions i (snd (subscribe_deps (subscribe observer d) i ds s)) = executions i s \<and>
         (fst (subscribe_deps (subscribe observer d) i ds s) = Inr () \<longrightarrow>
            cleanups (sig_at (snd (subscribe_deps (subscribe observer d) i ds s)) i) =
              cleanups (sig_at s i) @ map (\<lambda>e. Unsubscribe e (PassUpdate i)) ds)"
  using lay i ds inactive
proof (induction ds arbitrary: s)
  case Nil then show ?case by (simp add: beyond_refl)
next
  case (Cons e rest)
  have e: "e < i" and rest: "\<forall>x \<in> set rest. x < i" using Cons.prems(3) by simp_all
  obtain r s1 where p: "subscribe observer d e (PassUpdate i) s = (r, s1)"
    by (cases "subscribe observer d e (PassUpdate i) s")
  have "fine allow (fst (subscribe observer d e (PassUpdate i) s)) \<and>
        beyond e s (snd (subscribe observer d e (PassUpdate i) s))"
    by (rule IH) (use Cons.prems e fuel in \<open>simp_all add: internal_def\<close>)
  then have a: "fine allow r" "beyond e s s1" using p by simp_all
  have len1: "length (sigs s1) = length (sigs s)" by (rule beyond_length[OF a(2)])
  have same_i: "sig_at s1 i = sig_at s i" "executions i s1 = executions i s"
    using a(2) e Cons.prems(2) by (simp_all add: beyond_def)
  have ai: "beyond i s s1" by (rule beyond_mono[OF a(2)]) (use e in simp)
  show ?case
  proof (cases r)
    case (Inl err)
    then show ?thesis using p a(1) ai same_i Cons.prems(4) by simp
  next
    case (Inr c)
    have c: "c = Unsubscribe e (PassUpdate i)" using subscribe_Inr[of d e "PassUpdate i" s c s1] p Inr by simp
    define s2 where "s2 = upd i (\<lambda>g. g\<lparr>cleanups := cleanups g @ [c]\<rparr>) s1"
    have g2: "grows s1 s2" unfolding s2_def by (rule grows_add_cleanup)
    have a2: "beyond i s1 s2" unfolding s2_def by (rule beyond_upd) (simp, rule grows_add_cleanup)
    have lay2: "layered allow s2"
      by (rule layered_grows[OF g2 layered_grows[OF beyond_grows[OF a(2)] Cons.prems(1)]])
    have i2: "i < length (sigs s2)" using Cons.prems(2) len1 by (simp add: s2_def)
    have in2: "listeners (sig_at s2 i) = []"
      using Cons.prems(2,4) len1 same_i(1) by (simp add: s2_def)
    note t = Cons.IH[OF lay2 i2 rest in2]
    have v2: "val (sig_at s2 i) = val (sig_at s i)" "executions i s2 = executions i s"
      "cleanups (sig_at s2 i) = cleanups (sig_at s i) @ [Unsubscribe e (PassUpdate i)]"
      using Cons.prems(2) len1 same_i c by (simp_all add: s2_def executions_def)
    have "beyond i s s2" by (rule beyond_trans[OF ai a2])
    then have "beyond i s (snd (subscribe_deps (subscribe observer d) i rest s2))"
      using t beyond_trans by blast
    then show ?thesis using p Inr t v2 by (simp add: s2_def[symmetric])
  qed
qed

lemma layered_deps: "layered allow s \<Longrightarrow> j < length (sigs s) \<Longrightarrow> \<forall>e \<in> set (deps (sig_at s j)). e < j"
  by (simp add: layered_def)

lemma recompute_fine:
  assumes lay: "layered allow s" and i: "i < length (sigs s)" and fuel: "i \<le> d"
    and nw: "\<not> isWritable (kind (sig_at s i))"
  shows "fine allow (fst (recompute (read d) i (kind (sig_at s i)) s)) \<and>
         kept (Suc i) s (snd (recompute (read d) i (kind (sig_at s i)) s)) \<and>
         (\<forall>v. fst (recompute (read d) i (kind (sig_at s i)) s) = Inr v \<longrightarrow>
            kept i (emit (Executed i) s) (snd (recompute (read d) i (kind (sig_at s i)) s)))"
proof -
  have rd: "fine allow (fst (read d j w)) \<and> kept i w (snd (read d j w))"
    if "j < i" "same_frame s w" for j w
  proof -
    have "layered allow w" by (rule layered_same_frame[OF that(2) lay])
    moreover have "j < length (sigs w)" using that i by (simp add: same_frame_def)
    moreover have "j < d" using that(1) fuel by simp
    ultimately have "fine allow (fst (read d j w)) \<and> kept (Suc j) w (snd (read d j w))"
      by (rule read_fine)
    then show ?thesis using kept_mono[of "Suc j" w _ i] that(1) by auto
  qed
  show ?thesis
    by (rule recompute_kept) (erule (1) rd, rule layered_kind_ok[OF lay i], rule nw)
qed

lemma subscribe_fine:
  "layered allow s \<Longrightarrow> i < length (sigs s) \<Longrightarrow> Suc i < d \<Longrightarrow> internal l i s \<Longrightarrow>
   fine allow (fst (subscribe observer d i l s)) \<and> beyond i s (snd (subscribe observer d i l s))"
proof (induction d arbitrary: i l s)
  case 0 then show ?case by simp
next
  case (Suc d)
  have fuel: "i < d" using Suc.prems(3) by simp
  have inr: "\<not> length (sigs s) \<le> i" using Suc.prems(2) by simp
  have add: "beyond i w (upd i (\<lambda>g. g\<lparr>listeners := set_add l (listeners g)\<rparr>) w)" for w :: "'v world"
    by (rule beyond_upd) (simp, rule grows_add_listener)
  show ?case
  proof (cases "isWritable (kind (sig_at s i)) \<or> listeners (sig_at s i) \<noteq> []")
    case True
    then show ?thesis using inr add[of s] by auto
  next
    case False
    then have nw: "\<not> isWritable (kind (sig_at s i))" and inactive: "listeners (sig_at s i) = []"
      by simp_all
    obtain r1 s1 where sd: "subscribe_deps (subscribe observer d) i (deps (sig_at s i)) s = (r1, s1)"
      by (cases "subscribe_deps (subscribe observer d) i (deps (sig_at s i)) s")
    have "fine allow (fst (subscribe_deps (subscribe observer d) i (deps (sig_at s i)) s)) \<and>
         beyond i s (snd (subscribe_deps (subscribe observer d) i (deps (sig_at s i)) s)) \<and>
         listeners (sig_at (snd (subscribe_deps (subscribe observer d) i (deps (sig_at s i)) s)) i) = [] \<and>
         val (sig_at (snd (subscribe_deps (subscribe observer d) i (deps (sig_at s i)) s)) i) = val (sig_at s i) \<and>
         executions i (snd (subscribe_deps (subscribe observer d) i (deps (sig_at s i)) s)) = executions i s \<and>
         (fst (subscribe_deps (subscribe observer d) i (deps (sig_at s i)) s) = Inr () \<longrightarrow>
            cleanups (sig_at (snd (subscribe_deps (subscribe observer d) i (deps (sig_at s i)) s)) i) =
              cleanups (sig_at s i) @ map (\<lambda>e. Unsubscribe e (PassUpdate i)) (deps (sig_at s i)))"
      by (rule subscribe_deps_fine)
         (erule (3) Suc.IH, rule Suc.prems(1), rule Suc.prems(2),
          rule layered_deps[OF Suc.prems(1,2)], rule fuel, rule inactive)
    then have a: "fine allow r1" "beyond i s s1" "listeners (sig_at s1 i) = []"
      using sd by simp_all
    have len1: "length (sigs s1) = length (sigs s)" by (rule beyond_length[OF a(2)])
    have k1: "kind (sig_at s1 i) = kind (sig_at s i)"
      using grows_statics[OF beyond_grows[OF a(2)]] Suc.prems(2) by simp
    have lay1: "layered allow s1" by (rule layered_grows[OF beyond_grows[OF a(2)] Suc.prems(1)])
    show ?thesis
    proof (cases r1)
      case (Inl e)
      then show ?thesis using inr nw inactive sd a by simp
    next
      case r1: (Inr u)
      obtain r2 s2 where rc: "recompute (read d) i (kind (sig_at s1 i)) s1 = (r2, s2)"
        by (cases "recompute (read d) i (kind (sig_at s1 i)) s1")
      have "fine allow (fst (recompute (read d) i (kind (sig_at s1 i)) s1)) \<and>
         kept (Suc i) s1 (snd (recompute (read d) i (kind (sig_at s1 i)) s1)) \<and>
         (\<forall>v. fst (recompute (read d) i (kind (sig_at s1 i)) s1) = Inr v \<longrightarrow>
            kept i (emit (Executed i) s1) (snd (recompute (read d) i (kind (sig_at s1 i)) s1)))"
        by (rule recompute_fine[OF lay1]) (use Suc.prems(2) len1 fuel nw k1 in simp_all)
      then have b: "fine allow r2" "kept (Suc i) s1 s2" using rc by simp_all
      have b2: "beyond i s s2" by (rule beyond_trans[OF a(2) kept_above[OF b(2)]])
      show ?thesis
      proof (cases r2)
        case (Inl e)
        then show ?thesis using inr nw inactive sd r1 rc b(1) b2 by simp
      next
        case r2: (Inr nxt)
        define s3 where "s3 = upd i (\<lambda>g. g\<lparr>val := nxt\<rparr>) s2"
        have b3: "beyond i s s3" unfolding s3_def
          by (rule beyond_trans[OF b2]) (rule beyond_upd, simp, rule grows_upd_val)
        have "\<exists>s4. invoke observer (passUpdate observer d) l nxt s3 = (Inr (), s4) \<and> beyond i s s4"
        proof (cases l)
          case (External n)
          have "beyond i s3 (emit (Called n nxt) s3)" by (rule beyond_emit) simp
          then show ?thesis using External beyond_trans[OF b3] by (simp add: invoke_observer)
        next
          case (PassUpdate p)
          have p: "i < p" "p < length (sigs s)" "listeners (sig_at s p) = []"
            using Suc.prems(4) PassUpdate by (simp_all add: internal_def)
          have "sig_at s3 p = sig_at s p" "length (sigs s3) = length (sigs s)"
            using b3 p by (simp_all add: beyond_def grows_def)
          moreover obtain d0 where "d = Suc d0" using fuel by (cases d) simp_all
          ultimately show ?thesis using PassUpdate p b3 by (simp add: invoke_observer)
        qed
        then obtain s4 where iv: "invoke observer (passUpdate observer d) l nxt s3 = (Inr (), s4)"
          and b4: "beyond i s s4" by blast
        have "beyond i s (upd i (\<lambda>g. g\<lparr>listeners := set_add l (listeners g)\<rparr>) s4)"
          by (rule beyond_trans[OF b4 add])
        then show ?thesis using inr nw inactive sd r1 rc r2 iv
          by (simp add: s3_def[symmetric])
      qed
    qed
  qed
qed

lemma upd_listeners_first:
  "i < length (sigs w) \<Longrightarrow> listeners (sig_at w i) = [] \<Longrightarrow>
   upd i (\<lambda>g. g\<lparr>listeners := set_add l (listeners g)\<rparr>) w = upd i (\<lambda>g. g\<lparr>listeners := [l]\<rparr>) w"
  by (simp add: upd_def sig_at_def set_add_def)



lemma cleanups_below_upd_listeners:
  "cleanups_below s \<Longrightarrow> cleanups_below (upd i (\<lambda>g. g\<lparr>listeners := f (listeners g)\<rparr>) s)"
  by (simp add: cleanups_below_def sig_at_upd)

lemma cleanups_below_clear:
  "cleanups_below s \<Longrightarrow> cleanups_below (upd i (\<lambda>g. g\<lparr>cleanups := []\<rparr>) s)"
  by (simp add: cleanups_below_def sig_at_upd)

lemma run_cleanups_returns:
  fixes w :: "'v world"
  assumes IH: "\<And>e l (s :: 'v world). cleanups_below s \<Longrightarrow> e < length (sigs s) \<Longrightarrow> e < d \<Longrightarrow>
        \<exists>s'. unsubscribe d (Unsubscribe e l) s = (Inr (), s') \<and> unsub_ok s s'"
    and cs: "\<forall>c \<in> set cs. \<exists>e l. c = Unsubscribe e l \<and> e < i"
    and i: "i < length (sigs w)" "i \<le> d" and w: "cleanups_below w"
  shows "\<exists>w'. run_cleanups (unsubscribe d) cs w = (Inr (), w') \<and> unsub_ok w w'"
  using cs i(1) w
proof (induction cs arbitrary: w)
  case Nil then show ?case by (simp add: unsub_ok_def)
next
  case (Cons c rest)
  obtain e l where c: "c = Unsubscribe e l" "e < i" using Cons.prems(1) by auto
  have "\<exists>s'. unsubscribe d (Unsubscribe e l) w = (Inr (), s') \<and> unsub_ok w s'"
    by (rule IH) (use Cons.prems c i(2) in simp_all)
  then obtain w1 where u: "unsubscribe d (Unsubscribe e l) w = (Inr (), w1)" "unsub_ok w w1"
    by blast
  have "\<exists>w'. run_cleanups (unsubscribe d) rest w1 = (Inr (), w') \<and> unsub_ok w1 w'"
    by (rule Cons.IH) (use Cons.prems u(2) in \<open>simp_all add: unsub_ok_def\<close>)
  then obtain w2 where r: "run_cleanups (unsubscribe d) rest w1 = (Inr (), w2)" "unsub_ok w1 w2"
    by blast
  have "unsub_ok w w2" using u(2) r(2) by (simp add: unsub_ok_def)
  then show ?case using c u(1) r(1) by simp
qed

lemma unsubscribe_returns:
  "cleanups_below s \<Longrightarrow> i < length (sigs s) \<Longrightarrow> i < d \<Longrightarrow>
   \<exists>s'. unsubscribe d (Unsubscribe i l) s = (Inr (), s') \<and> unsub_ok s s'"
proof (induction d arbitrary: i l s)
  case 0 then show ?case by simp
next
  case (Suc d)
  define s1 where "s1 = upd i (\<lambda>g. g\<lparr>listeners := removeAll l (listeners g)\<rparr>) s"
  have b1: "cleanups_below s1" unfolding s1_def
    by (rule cleanups_below_upd_listeners[OF Suc.prems(1)])
  have ok1: "unsub_ok s s1" using b1 by (simp add: unsub_ok_def s1_def sig_at_upd)
  have i1: "i < length (sigs s1)" using Suc.prems(2) by (simp add: s1_def)
  show ?case
  proof (cases "\<not> isWritable (kind (sig_at s i)) \<and> removeAll l (listeners (sig_at s i)) = []")
    case False
    then show ?thesis using ok1 unsubscribe_Suc[OF Suc.prems(2), of d l]
      by (auto simp: s1_def)
  next
    case True
    have cs: "\<forall>c \<in> set (cleanups (sig_at s i)). \<exists>e l. c = Unsubscribe e l \<and> e < i"
      using Suc.prems(1,2) True by (simp add: cleanups_below_def)
    have "\<exists>w'. run_cleanups (unsubscribe d) (cleanups (sig_at s i)) s1 = (Inr (), w') \<and> unsub_ok s1 w'"
      by (rule run_cleanups_returns)
         (erule (2) Suc.IH, rule cs, rule i1, use Suc.prems(3) in simp, rule b1)
    then obtain w' where r: "run_cleanups (unsubscribe d) (cleanups (sig_at s i)) s1 = (Inr (), w')"
      and ok: "unsub_ok s1 w'" by blast
    have "unsub_ok s (upd i (\<lambda>g. g\<lparr>cleanups := []\<rparr>) w')"
      using ok ok1 cleanups_below_clear[of w' i] by (simp add: unsub_ok_def sig_at_upd)
    then show ?thesis using True r unsubscribe_Suc[OF Suc.prems(2), of d l]
      by (simp add: s1_def)
  qed
qed

lemma wired_cleanups_below: "wired s (\<lambda>x. None) \<Longrightarrow> cleanups_below s"
  by (auto simp: wired_def cleanups_below_def split: if_splits)

lemma undisturbed_refl: "undisturbed i s s"
  by (simp add: undisturbed_def same_skeleton_refl)

lemma undisturbed_trans: "undisturbed i s s' \<Longrightarrow> undisturbed i s' s'' \<Longrightarrow> undisturbed i s s''"
  unfolding undisturbed_def using same_skeleton_trans by (fastforce simp: same_skeleton_def)

lemma same_frame_undisturbed: "same_frame s s' \<Longrightarrow> undisturbed i s s'"
  by (simp add: undisturbed_def same_frame_skeleton same_frame_def)

lemma undisturbed_upd_val:
  "\<not> isWritable (kind (sig_at s j)) \<Longrightarrow> undisturbed i s (upd j (\<lambda>g. g\<lparr>val := v\<rparr>) s)"
  by (auto simp: undisturbed_def same_skeleton_upd_val sig_at_upd)

lemma calm_observer: "calm i observer"
  by (simp add: calm_def observer_def undisturbed_refl)

lemma passUpdate_calm:
  assumes q: "calm i ext"
  shows "undisturbed i s (snd (passUpdate ext d j s))"
proof (induction d arbitrary: j s)
  case 0 show ?case by (simp add: undisturbed_refl)
next
  case (Suc d)
  show ?case
  proof (cases "length (sigs s) \<le> j \<or> listeners (sig_at s j) = []")
    case True then show ?thesis by (auto simp: undisturbed_refl)
  next
    case False
    then have inr: "j < length (sigs s)" and act: "listeners (sig_at s j) \<noteq> []" by auto
    obtain r s1 where rc: "recompute (read d) j (kind (sig_at s j)) s = (r, s1)"
      by (cases "recompute (read d) j (kind (sig_at s j)) s")
    have "same_frame s (snd (recompute (read d) j (kind (sig_at s j)) s))"
      by (rule recompute_same_frame) (rule read_same_frame)
    then have sf: "same_frame s s1" using rc by simp
    have u1: "undisturbed i s s1" by (rule same_frame_undisturbed[OF sf])
    show ?thesis
    proof (cases r)
      case (Inl e)
      then show ?thesis using inr act rc u1 by simp
    next
      case (Inr nxt)
      have nw: "\<not> isWritable (kind (sig_at s j))"
        using rc Inr recompute_Inr_derived[of "read d" j "kind (sig_at s j)" s nxt s1] by simp
      have k1: "\<not> isWritable (kind (sig_at s1 j))" using inr nw sf by (simp add: same_frame_def)
      define s2 where "s2 = upd j (\<lambda>g. g\<lparr>val := nxt\<rparr>) s1"
      have u2: "undisturbed i s1 s2" unfolding s2_def by (rule undisturbed_upd_val[OF k1])
      have inv: "undisturbed i w (snd (invoke ext (passUpdate ext d) l v w))" for l v w
      proof (cases l)
        case (PassUpdate p)
        then show ?thesis using Suc.IH[of w p] by (simp add: invoke_def)
      next
        case (External n)
        have "undisturbed i (emit (Called n v) w) (snd (ext n v (emit (Called n v) w)))"
          using q by (simp add: calm_def)
        then have "undisturbed i w (snd (ext n v (emit (Called n v) w)))"
          by (rule undisturbed_trans[OF same_frame_undisturbed[OF same_frame_emit]])
        then show ?thesis using External by (simp add: invoke_def)
      qed
      have "undisturbed i s2 (snd (notify (invoke ext (passUpdate ext d)) (\<lambda>w. val (sig_at w j))
              (listeners (sig_at s2 j)) s2))"
        by (rule notify_rel[where ?s0.0 = s2 and R = "undisturbed i"])
           (rule undisturbed_refl, erule undisturbed_trans, assumption, rule inv, rule undisturbed_refl)
      then have "undisturbed i s (snd (notify (invoke ext (passUpdate ext d)) (\<lambda>w. val (sig_at w j))
              (listeners (sig_at s2 j)) s2))"
        using undisturbed_trans[OF undisturbed_trans[OF u1 u2]] by blast
      then show ?thesis using inr act rc Inr u1
        by (simp add: s2_def[symmetric] Let_def)
    qed
  qed
qed

lemma invoke_calm:
  assumes q: "calm i ext"
  shows "undisturbed i s (snd (invoke ext (passUpdate ext d) l v s))"
proof (cases l)
  case (PassUpdate j)
  then show ?thesis using passUpdate_calm[OF q] by (simp add: invoke_def)
next
  case (External n)
  have "undisturbed i (emit (Called n v) s) (snd (ext n v (emit (Called n v) s)))"
    using q by (simp add: calm_def)
  then have "undisturbed i s (snd (ext n v (emit (Called n v) s)))"
    by (rule undisturbed_trans[OF same_frame_undisturbed[OF same_frame_emit]])
  then show ?thesis using External by (simp add: invoke_def)
qed

lemma notify_calm:
  assumes q: "calm i ext"
  shows "undisturbed i s (snd (notify (invoke ext (passUpdate ext d)) arg ls s))"
  by (rule notify_rel[where ?s0.0 = s and R = "undisturbed i"])
     (rule undisturbed_refl, erule undisturbed_trans, assumption, rule invoke_calm[OF q],
      rule undisturbed_refl)

lemma undisturbed_writable_val:
  "undisturbed i s s' \<Longrightarrow> i < length (sigs s) \<Longrightarrow> isWritable (kind (sig_at s i)) \<Longrightarrow>
   val (sig_at s' i) = val (sig_at s i) \<and> isWritable (kind (sig_at s' i)) \<and> i < length (sigs s')"
  by (simp add: undisturbed_def same_skeleton_def)

section \<open>Claims\<close>

text \<open>
  C5: on a writable signal, a \<open>set\<close> or \<open>update\<close> whose new value is equal to the
  current one under the equality policy notifies nobody and leaves the stored value as it
  is, however often it is repeated. With \<open>equal = |a - b| \<le> 2\<close> on a signal holding 0,
  \<open>set(1)\<close> then \<open>set(2)\<close> notify nobody, and \<open>set(3)\<close> then notifies once, with 3.
\<close>

theorem equal_writes_are_silent:
  "(i < length (sigs s) \<and> isWritable (kind (sig_at s i)) \<and>
    (\<forall>a \<in> set ops.
        (\<exists>v. a = set_signal ext d i v \<and> equal_fn (sig_at s i) (val (sig_at s i)) v) \<or>
        (\<exists>fn. a = update ext d i fn \<and>
              equal_fn (sig_at s i) (val (sig_at s i)) (fn (val (sig_at s i)))))
      \<longrightarrow> sequence ops s = (Inr (), s)) \<and>
   sequence [set_signal observer 2 0 1, set_signal observer 2 0 2] watched_cell = (Inr (), watched_cell) \<and>
   sequence [set_signal observer 2 0 1, set_signal observer 2 0 2, set_signal observer 2 0 3] watched_cell =
     (Inr (), watched_cell\<lparr>sigs := [(sig_at watched_cell 0)\<lparr>val := 3\<rparr>],
                          trace := [Called 0 3]\<rparr>)"
  using sequence_silent[of i s ops ext d] scenario1 scenario2 by blast

theorem equal_writes_are_silent_witness:
  "0 < length (sigs watched_cell) \<and> isWritable (kind (sig_at watched_cell 0)) \<and>
   equal_fn (sig_at watched_cell 0) (val (sig_at watched_cell 0)) 1 \<and>
   equal_fn (sig_at watched_cell 0) (val (sig_at watched_cell 0)) ((\<lambda>x. x + 2) (val (sig_at watched_cell 0))) \<and>
   sequence [set_signal observer 2 0 1, update observer 2 0 (\<lambda>x. x + 2)] watched_cell = (Inr (), watched_cell)"
proof -
  have a: "0 < length (sigs watched_cell) \<and> isWritable (kind (sig_at watched_cell 0)) \<and>
   equal_fn (sig_at watched_cell 0) (val (sig_at watched_cell 0)) 1 \<and>
   equal_fn (sig_at watched_cell 0) (val (sig_at watched_cell 0)) ((\<lambda>x. x + 2) (val (sig_at watched_cell 0)))"
    by (simp add: watched_cell_eq sig_at_def isWritable_def within_two_def)
  then have "\<forall>a \<in> set [set_signal observer 2 0 1, update observer 2 0 (\<lambda>x. x + 2)].
           (\<exists>v. a = set_signal observer 2 0 v \<and> equal_fn (sig_at watched_cell 0) (val (sig_at watched_cell 0)) v) \<or>
           (\<exists>fn. a = update observer 2 0 fn \<and>
                 equal_fn (sig_at watched_cell 0) (val (sig_at watched_cell 0)) (fn (val (sig_at watched_cell 0))))"
    by auto
  then show ?thesis using a equal_writes_are_silent[of 0 watched_cell "[set_signal observer 2 0 1, update observer 2 0 (\<lambda>x. x + 2)]" observer 2]
    by blast
qed

text \<open>
  C10: \<open>scan\<close> pushes one frame and pops one frame whatever the computation does, also
  when it throws, so the tracking stack after \<open>scan\<close> is the stack before it, and
  \<open>isContextOpen\<close> with it; a scan nested in a computation keeps the frames of the outer
  one. \<open>register\<close> adds to the top frame only. Reads, user computations and the
  computations of derived signals change the stack through \<open>register\<close> only.
\<close>

theorem scan_restores_stack:
  "(keeps_frames f \<longrightarrow>
      contextStack (snd (scan f s)) = contextStack s \<and>
      isContextOpen (snd (scan f s)) = isContextOpen s \<and>
      keeps_frames (\<lambda>w. (Inr (fst (scan f w)) :: error + sid list, snd (scan f w)))) \<and>
   keeps_frames (read d j) \<and>
   keeps_frames (run (read d) c) \<and>
   keeps_frames (exec (read d) i c) \<and>
   contextStack (snd (scan (exec (read d) i c) s)) = contextStack s \<and>
   contextStack (register j s) =
     (case contextStack s of [] \<Rightarrow> [] | fr # below \<Rightarrow> set_add j fr # below)"
proof -
  have a: "keeps_frames f \<longrightarrow>
      contextStack (snd (scan f s)) = contextStack s \<and>
      isContextOpen (snd (scan f s)) = isContextOpen s \<and>
      keeps_frames (\<lambda>w. (Inr (fst (scan f w)) :: error + sid list, snd (scan f w)))"
    using scan_keeps[of f s] scan_nests[of f] by (simp add: isContextOpen_def)
  have b: "contextStack (register j s) =
     (case contextStack s of [] \<Rightarrow> [] | fr # below \<Rightarrow> set_add j fr # below)"
    by (simp add: register_def split: list.splits)
  show ?thesis
    using a b read_keeps run_keeps exec_keeps scan_keeps[OF exec_keeps] by blast
qed

theorem scan_restores_stack_witness:
  "keeps_frames (run (read 1) (Read 0 (\<lambda>v. Throw :: int computation))) \<and>
   scan (run (read 1) (Read 0 (\<lambda>v. Throw))) open_frame = ([0], open_frame) \<and>
   contextStack (snd (scan (run (read 1) (Read 0 (\<lambda>v. Throw))) open_frame)) = [[5]]"
proof -
  note t = scan_restores_stack[of "run (read 1) (Read 0 (\<lambda>v. Throw :: int computation))" open_frame
      1 0 "Read 0 (\<lambda>v. Throw)" 0]
  have k: "keeps_frames (run (read 1) (Read 0 (\<lambda>v. Throw :: int computation)))"
    using t by blast
  have r: "contextStack (snd (scan (run (read 1) (Read 0 (\<lambda>v. Throw))) open_frame)) =
           contextStack open_frame"
    using t k by blast
  have e: "scan (run (read 1) (Read 0 (\<lambda>v. Throw))) open_frame = ([0], open_frame)"
    by (simp add: open_frame_def scan_def Let_def isContextOpen_def register_def set_add_def
        sig_at_def isWritable_def)
  show ?thesis using k r e by (simp add: open_frame_def)
qed

text \<open>
  C2 (as amended): constructing a computed signal executes its computation twice. The
  first execution is outside the tracking context and seeds the cached value; if it
  throws, construction throws after that one execution. The second execution runs inside
  \<open>scan\<close> and captures the dependency set. The new signal has no listener and an empty
  cleanup set.
\<close>

theorem computed_runs_twice:
  "(case exec (read d) (length (sigs s)) c s of
      (Inl e, s1) \<Rightarrow>
        computed d c opts s = (Inl e, s1) \<and>
        executions (length (sigs s)) s1 = executions (length (sigs s)) s + 1
    | (Inr v, s1) \<Rightarrow>
        (case scan (exec (read d) (length (sigs s)) c) s1 of
           (ds, s2) \<Rightarrow>
             computed d c opts s =
               (Inr (length (sigs s)),
                s2\<lparr>sigs := sigs s2 @
                  [\<lparr>val = v, listeners = [], cleanups = [], deps = ds,
                    equal_fn = (case opts of None \<Rightarrow> defaultEqual | Some e \<Rightarrow> e),
                    kind = Computed c\<rparr>]\<rparr>) \<and>
             executions (length (sigs s)) s2 = executions (length (sigs s)) s + 2))"
proof -
  obtain r s1 where p: "exec (read d) (length (sigs s)) c s = (r, s1)"
    by (cases "exec (read d) (length (sigs s)) c s")
  have e1: "executions (length (sigs s)) s1 = executions (length (sigs s)) s + 1"
    and l1: "length (sigs s1) = length (sigs s)"
    using executions_exec[of s "length (sigs s)" d c] p by simp_all
  show ?thesis
  proof (cases r)
    case (Inl e)
    then show ?thesis using p e1 by (simp add: computed_def)
  next
    case (Inr v)
    obtain ds s2 where q: "scan (exec (read d) (length (sigs s)) c) s1 = (ds, s2)"
      by (cases "scan (exec (read d) (length (sigs s)) c) s1")
    have "executions (length (sigs s)) s2 = executions (length (sigs s)) s1 + 1"
      using executions_scan_exec[of s1 "length (sigs s)" d c] q l1 by simp
    then show ?thesis using p Inr q e1 by (simp add: computed_def)
  qed
qed

theorem computed_runs_twice_counterexample:
  "fst (computed 1 doubled None one_cell) = Inr 1 \<and>
   trace (snd (computed 1 doubled None one_cell)) = [Executed 1, Executed 1] \<and>
   executions 1 (snd (computed 1 doubled None one_cell)) \<noteq> 1"
  by (simp add: one_cell_eq doubled_def executions_def eval_defs)



text \<open>
  C1: the scenario of the claim, with no subscriber on the linked signal. After
  \<open>form.update(f => ({...f, name: "Alice"}))\<close> the stored value has the name Alice, and the
  next read recomputes from the source and returns the empty name.
\<close>

theorem linked_override_lost_without_listener:
  "(case linkedSignal 2 (ArgFunction blank_form) user_cell of
      (form, w1) \<Rightarrow>
        (case update observer 2 1 name_alice w1 of
           (r, w2) \<Rightarrow>
             form = Inr 1 \<and> r = Inr () \<and>
             listeners (sig_at w2 1) = [] \<and>
             val (sig_at w2 1) = Obj [(''id'', Num 1), (''name'', Str ''Alice'')] \<and>
             fst (read 2 1 w2) = Inr (Obj [(''id'', Num 1), (''name'', Str [])])))"
  by (simp add: user_cell_def signal_def empty_world_def linkedSignal_def blank_form_def
        name_alice_def eval_defs numeral_2_eq_2)

text \<open>
  C4 (as amended): a computed signal with no listener recomputes on every read and
  returns what that execution returns. With a listener, a read returns the cached value
  and executes nothing; the dependency-changed handler recomputes, leaves the cache as it
  is when the new value is equal to it under the equality policy, and otherwise stores
  the new value and notifies the listeners.
\<close>

theorem computed_read_modes:
  "i < length (sigs s) \<and> kind (sig_at s i) = Computed c \<longrightarrow>
     (if listeners (sig_at s i) = [] then
        (case exec (read d) i c (if isContextOpen s then register i s else s) of
           (Inl e, s2) \<Rightarrow> read (Suc d) i s = (Inl e, s2)
         | (Inr v, s2) \<Rightarrow> read (Suc d) i s = (Inr v, upd i (\<lambda>g. g\<lparr>val := v\<rparr>) s2))
      else
        read (Suc d) i s = (Inr (val (sig_at s i)), if isContextOpen s then register i s else s) \<and>
        (case exec (read d) i c s of
           (Inl e, s1) \<Rightarrow> passUpdate observer (Suc d) i s = (Inl e, s1)
         | (Inr nxt, s1) \<Rightarrow>
             val (sig_at s1 i) = val (sig_at s i) \<and>
             (if equal_fn (sig_at s i) (val (sig_at s i)) nxt
              then passUpdate observer (Suc d) i s = (Inr (), s1)
              else passUpdate observer (Suc d) i s =
                     notify (invoke observer (passUpdate observer d)) (\<lambda>w. val (sig_at w i)) (listeners (sig_at s i))
                       (upd i (\<lambda>g. g\<lparr>val := nxt\<rparr>) s1))))"
  using read_inactive_computed[where i = i and s = s and c = c and d = d]
    read_active[where i = i and s = s and d = d]
    passUpdate_active_computed[where i = i and s = s and c = c and d = d]
  by simp

theorem active_read_can_be_stale_counterexample:
  "listeners (sig_at coarse_world 1) = [External 7] \<and>
   fst (read 1 1 coarse_world) = Inr 0 \<and>
   fst (exec (read 1) 1 (Read 0 Return) coarse_world) = Inr 1"
  by (simp add: coarse_world_eq eval_defs)

theorem computed_read_modes_witness:
  "1 < length (sigs coarse_world) \<and> kind (sig_at coarse_world 1) = Computed (Read 0 Return) \<and>
   read 1 1 coarse_world = (Inr 0, coarse_world) \<and>
   fst (passUpdate observer 2 1 coarse_world) = Inr () \<and>
   val (sig_at (snd (passUpdate observer 2 1 coarse_world)) 1) = 0 \<and>
   1 < length (sigs armed_world) \<and> kind (sig_at armed_world 1) = Computed guarded \<and>
   listeners (sig_at armed_world 1) = [] \<and>
   read 2 1 armed_world = (Inl Thrown, armed_world\<lparr>trace := [Executed 1]\<rparr>)"
proof -
  have a: "1 < length (sigs coarse_world) \<and> kind (sig_at coarse_world 1) = Computed (Read 0 Return)"
    by (simp add: coarse_world_eq sig_at_def)
  have b: "1 < length (sigs armed_world) \<and> kind (sig_at armed_world 1) = Computed guarded"
    by (simp add: armed_world_def sig_at_def)
  note t1 = computed_read_modes[of 1 coarse_world "Read 0 Return" 0]
  note t2 = computed_read_modes[of 1 coarse_world "Read 0 Return" 1]
  note t3 = computed_read_modes[of 1 armed_world guarded 1]
  have c: "read 1 1 coarse_world = (Inr 0, coarse_world)"
    using t1 a by (simp add: coarse_world_eq sig_at_def isContextOpen_def)
  have d: "fst (passUpdate observer 2 1 coarse_world) = Inr () \<and>
           val (sig_at (snd (passUpdate observer 2 1 coarse_world)) 1) = 0"
    using t2 a by (simp add: coarse_world_eq eval_defs numeral_2_eq_2 within_two_def)
  have e: "listeners (sig_at armed_world 1) = [] \<and>
           read 2 1 armed_world = (Inl Thrown, armed_world\<lparr>trace := [Executed 1]\<rparr>)"
    using t3 b by (simp add: armed_world_def guarded_def eval_defs numeral_2_eq_2)
  show ?thesis using a b c d e by blast
qed


text \<open>
  C9 (as amended): on a derived signal that already has a listener, \<open>subscribe\<close> only
  adds the listener: nothing is executed or delivered and the cached value stays. The
  new listener is called by the next notification of the signal: a dependency change
  whose recomputed value is not equal to the cached one or, on a linked signal, a direct
  \<open>set\<close> of a value that is not equal to the cached one.
\<close>

theorem subscribe_when_active_only_adds:
  "(i < length (sigs s) \<and> \<not> isWritable (kind (sig_at s i)) \<and> listeners (sig_at s i) \<noteq> [] \<longrightarrow>
      subscribe ext (Suc d) i l s =
        (Inr (Unsubscribe i l), upd i (\<lambda>g. g\<lparr>listeners := set_add l (listeners g)\<rparr>) s) \<and>
      trace (snd (subscribe ext (Suc d) i l s)) = trace s \<and>
      val (sig_at (snd (subscribe ext (Suc d) i l s)) i) = val (sig_at s i) \<and>
      l \<in> set (listeners (sig_at (snd (subscribe ext (Suc d) i l s)) i))) \<and>
   (i < length (sigs s) \<and> listeners (sig_at s i) \<noteq> [] \<longrightarrow>
      (case recompute (read d) i (kind (sig_at s i)) s of
         (Inl e, s1) \<Rightarrow> passUpdate observer (Suc d) i s = (Inl e, s1)
       | (Inr nxt, s1) \<Rightarrow>
           (if equal_fn (sig_at s1 i) (val (sig_at s1 i)) nxt
            then passUpdate observer (Suc d) i s = (Inr (), s1)
            else passUpdate observer (Suc d) i s =
                   notify (invoke observer (passUpdate observer d)) (\<lambda>w. val (sig_at w i)) (listeners (sig_at s i))
                     (upd i (\<lambda>g. g\<lparr>val := nxt\<rparr>) s1)))) \<and>
   (i < length (sigs s) \<and> kind (sig_at s i) = Linked f c \<and>
    \<not> equal_fn (sig_at s i) (val (sig_at s i)) v \<longrightarrow>
      set_signal observer d i v s =
        notify (invoke observer (passUpdate observer d)) (\<lambda>w. v) (listeners (sig_at s i))
          (upd i (\<lambda>g. g\<lparr>val := v\<rparr>) s))"
proof (intro conjI)
  show "i < length (sigs s) \<and> \<not> isWritable (kind (sig_at s i)) \<and> listeners (sig_at s i) \<noteq> [] \<longrightarrow>
      subscribe ext (Suc d) i l s =
        (Inr (Unsubscribe i l), upd i (\<lambda>g. g\<lparr>listeners := set_add l (listeners g)\<rparr>) s) \<and>
      trace (snd (subscribe ext (Suc d) i l s)) = trace s \<and>
      val (sig_at (snd (subscribe ext (Suc d) i l s)) i) = val (sig_at s i) \<and>
      l \<in> set (listeners (sig_at (snd (subscribe ext (Suc d) i l s)) i))"
  proof
    assume h: "i < length (sigs s) \<and> \<not> isWritable (kind (sig_at s i)) \<and> listeners (sig_at s i) \<noteq> []"
    show "subscribe ext (Suc d) i l s =
        (Inr (Unsubscribe i l), upd i (\<lambda>g. g\<lparr>listeners := set_add l (listeners g)\<rparr>) s) \<and>
      trace (snd (subscribe ext (Suc d) i l s)) = trace s \<and>
      val (sig_at (snd (subscribe ext (Suc d) i l s)) i) = val (sig_at s i) \<and>
      l \<in> set (listeners (sig_at (snd (subscribe ext (Suc d) i l s)) i))"
      by (rule subscribe_active) (use h in blast)+
  qed
next
  show "i < length (sigs s) \<and> listeners (sig_at s i) \<noteq> [] \<longrightarrow>
      (case recompute (read d) i (kind (sig_at s i)) s of
         (Inl e, s1) \<Rightarrow> passUpdate observer (Suc d) i s = (Inl e, s1)
       | (Inr nxt, s1) \<Rightarrow>
           (if equal_fn (sig_at s1 i) (val (sig_at s1 i)) nxt
            then passUpdate observer (Suc d) i s = (Inr (), s1)
            else passUpdate observer (Suc d) i s =
                   notify (invoke observer (passUpdate observer d)) (\<lambda>w. val (sig_at w i)) (listeners (sig_at s i))
                     (upd i (\<lambda>g. g\<lparr>val := nxt\<rparr>) s1)))"
  proof
    assume h: "i < length (sigs s) \<and> listeners (sig_at s i) \<noteq> []"
    show "(case recompute (read d) i (kind (sig_at s i)) s of
         (Inl e, s1) \<Rightarrow> passUpdate observer (Suc d) i s = (Inl e, s1)
       | (Inr nxt, s1) \<Rightarrow>
           (if equal_fn (sig_at s1 i) (val (sig_at s1 i)) nxt
            then passUpdate observer (Suc d) i s = (Inr (), s1)
            else passUpdate observer (Suc d) i s =
                   notify (invoke observer (passUpdate observer d)) (\<lambda>w. val (sig_at w i)) (listeners (sig_at s i))
                     (upd i (\<lambda>g. g\<lparr>val := nxt\<rparr>) s1)))"
      by (rule passUpdate_active) (use h in blast)+
  qed
next
  show "i < length (sigs s) \<and> kind (sig_at s i) = Linked f c \<and>
    \<not> equal_fn (sig_at s i) (val (sig_at s i)) v \<longrightarrow>
      set_signal observer d i v s =
        notify (invoke observer (passUpdate observer d)) (\<lambda>w. v) (listeners (sig_at s i))
          (upd i (\<lambda>g. g\<lparr>val := v\<rparr>) s)"
  proof
    assume h: "i < length (sigs s) \<and> kind (sig_at s i) = Linked f c \<and>
      \<not> equal_fn (sig_at s i) (val (sig_at s i)) v"
    show "set_signal observer d i v s =
        notify (invoke observer (passUpdate observer d)) (\<lambda>w. v) (listeners (sig_at s i))
          (upd i (\<lambda>g. g\<lparr>val := v\<rparr>) s)"
      by (rule set_linked) (use h in blast)+
  qed
qed

theorem late_subscriber_called_by_direct_set_counterexample:
  "val (sig_at linked_pair 0) = 1 \<and>
   listeners (sig_at linked_pair 1) = [External 1, External 2] \<and>
   set_signal observer 1 1 5 linked_pair =
     (Inr (),
      linked_pair\<lparr>sigs := [sig_at linked_pair 0, (sig_at linked_pair 1)\<lparr>val := 5\<rparr>],
                   trace := trace linked_pair @ [Called 1 5, Called 2 5]\<rparr>)"
  by (simp add: linked_pair_eq eval_defs)

theorem subscribe_when_active_only_adds_witness:
  "1 < length (sigs linked_pair) \<and> \<not> isWritable (kind (sig_at linked_pair 1)) \<and>
   listeners (sig_at linked_pair 1) \<noteq> [] \<and>
   kind (sig_at linked_pair 1) = Linked (Read 0 Return) (\<lambda>srcVal prev. Return srcVal) \<and>
   \<not> equal_fn (sig_at linked_pair 1) (val (sig_at linked_pair 1)) 5 \<and>
   subscribe observer (Suc (Suc 0)) 1 (External 3) linked_pair =
     (Inr (Unsubscribe 1 (External 3)),
      upd 1 (\<lambda>g. g\<lparr>listeners := set_add (External 3) (listeners g)\<rparr>) linked_pair) \<and>
   trace (snd (subscribe observer (Suc (Suc 0)) 1 (External 3) linked_pair)) = trace linked_pair \<and>
   set_signal observer (Suc 0) 1 5 linked_pair =
     notify (invoke observer (passUpdate observer (Suc 0))) (\<lambda>w. 5) (listeners (sig_at linked_pair 1))
       (upd 1 (\<lambda>g. g\<lparr>val := 5\<rparr>) linked_pair)"
proof -
  have a: "1 < length (sigs linked_pair) \<and> \<not> isWritable (kind (sig_at linked_pair 1)) \<and>
     listeners (sig_at linked_pair 1) \<noteq> [] \<and>
     kind (sig_at linked_pair 1) = Linked (Read 0 Return) (\<lambda>srcVal prev. Return srcVal) \<and>
     \<not> equal_fn (sig_at linked_pair 1) (val (sig_at linked_pair 1)) 5"
    by (simp add: linked_pair_eq sig_at_def isWritable_def defaultEqual_def)
  note t = subscribe_when_active_only_adds[where i = 1 and s = linked_pair and d = "Suc 0"
      and l = "External 3" and f = "Read 0 Return" and c = "\<lambda>srcVal prev. Return srcVal" and v = 5]
  show ?thesis using t a by blast
qed

text \<open>
  C8 (as amended): on a writable signal, a \<open>set(v)\<close> of a value that is not equal to the
  current one stores \<open>v\<close> first and then calls the listeners in insertion order, each with
  \<open>v\<close>: the listeners before \<open>l\<close> in the set, then \<open>l\<close>, then those after it; the first
  listener that throws ends the loop. Reading the signal gives \<open>v\<close> when the first listener
  is called. When the listeners' code does not write this signal and changes no
  subscription (\<open>calm\<close>), reading the signal still gives \<open>v\<close> when \<open>l\<close> is called and right
  after it has run; listeners that only look are called once each, in order, with \<open>v\<close>.
\<close>

theorem set_notifies_in_order:
  assumes "i < length (sigs s)" and "isWritable (kind (sig_at s i))"
    and "\<not> equal_fn (sig_at s i) (val (sig_at s i)) v"
    and "listeners (sig_at s i) = before @ l # after"
    and "calm i ext"
  shows "set_signal ext d i v s =
           notify (invoke ext (passUpdate ext d)) (\<lambda>w. v) (before @ l # after)
             (upd i (\<lambda>g. g\<lparr>val := v\<rparr>) s) \<and>
         set_signal ext d i v s =
           (case notify (invoke ext (passUpdate ext d)) (\<lambda>w. v) before (upd i (\<lambda>g. g\<lparr>val := v\<rparr>) s) of
              (Inl e, s2) \<Rightarrow> (Inl e, s2)
            | (Inr u, s2) \<Rightarrow>
                (case invoke ext (passUpdate ext d) l v s2 of
                   (Inl e, s3) \<Rightarrow> (Inl e, s3)
                 | (Inr u, s3) \<Rightarrow> notify (invoke ext (passUpdate ext d)) (\<lambda>w. v) after s3)) \<and>
         fst (read (Suc k) i (upd i (\<lambda>g. g\<lparr>val := v\<rparr>) s)) = Inr v \<and>
         fst (read (Suc k) i
            (snd (notify (invoke ext (passUpdate ext d)) (\<lambda>w. v) before (upd i (\<lambda>g. g\<lparr>val := v\<rparr>) s)))) = Inr v \<and>
         fst (read (Suc k) i
            (snd (invoke ext (passUpdate ext d) l v
              (snd (notify (invoke ext (passUpdate ext d)) (\<lambda>w. v) before (upd i (\<lambda>g. g\<lparr>val := v\<rparr>) s)))))) = Inr v \<and>
         (\<forall>ns. before @ l # after = map External ns \<longrightarrow>
            set_signal observer d i v s =
              (Inr (), (upd i (\<lambda>g. g\<lparr>val := v\<rparr>) s)\<lparr>trace := trace s @ map (\<lambda>n. Called n v) ns\<rparr>))"
proof -
  define s1 where "s1 = upd i (\<lambda>g. g\<lparr>val := v\<rparr>) s"
  define s2 where "s2 = snd (notify (invoke ext (passUpdate ext d)) (\<lambda>w. v) before s1)"
  define s3 where "s3 = snd (invoke ext (passUpdate ext d) l v s2)"
  have i1: "i < length (sigs s1)" and w1: "isWritable (kind (sig_at s1 i))"
    and v1: "val (sig_at s1 i) = v" and l1: "listeners (sig_at s1 i) = before @ l # after"
    using assms by (simp_all add: s1_def)
  have nc: "\<not> (case kind (sig_at s i) of Computed c \<Rightarrow> True | _ \<Rightarrow> False)"
    using assms(2) by (simp add: isWritable_def split: kind.splits)
  have A0: "set_signal e d i v s = notify (invoke e (passUpdate e d)) (\<lambda>w. v) (before @ l # after) s1" for e
    using assms(1,3) nc l1 by (simp add: set_signal_def s1_def[symmetric] Let_def)
  then have A: "set_signal ext d i v s =
           (case notify (invoke ext (passUpdate ext d)) (\<lambda>w. v) before s1 of
              (Inl e, s2) \<Rightarrow> (Inl e, s2)
            | (Inr u, s2) \<Rightarrow>
                (case invoke ext (passUpdate ext d) l v s2 of
                   (Inl e, s3) \<Rightarrow> (Inl e, s3)
                 | (Inr u, s3) \<Rightarrow> notify (invoke ext (passUpdate ext d)) (\<lambda>w. v) after s3))"
    by (simp add: notify_append split: prod.splits sum.splits)
  have f2: "undisturbed i s1 s2" unfolding s2_def by (rule notify_calm[OF assms(5)])
  have p2: "val (sig_at s2 i) = v \<and> isWritable (kind (sig_at s2 i)) \<and> i < length (sigs s2)"
    using undisturbed_writable_val[OF f2 i1 w1] v1 by simp
  have f3: "undisturbed i s2 s3" unfolding s3_def by (rule invoke_calm[OF assms(5)])
  have p3: "val (sig_at s3 i) = v \<and> isWritable (kind (sig_at s3 i)) \<and> i < length (sigs s3)"
    using undisturbed_writable_val[OF f3] p2 by simp
  have B1: "fst (read (Suc k) i s1) = Inr v" using read_writable[of i s1 k] i1 w1 v1 by simp
  have B: "fst (read (Suc k) i s2) = Inr v" using read_writable[of i s2 k] p2 by simp
  have C: "fst (read (Suc k) i s3) = Inr v" using read_writable[of i s3 k] p3 by simp
  have D: "set_signal observer d i v s = (Inr (), s1\<lparr>trace := trace s @ map (\<lambda>n. Called n v) ns\<rparr>)"
    if "before @ l # after = map External ns" for ns
    using A0[of observer] that notify_observers[of "passUpdate observer d" v ns s1]
    by (simp add: s1_def)
  show ?thesis using A0[of ext] A B1 B C D unfolding s1_def s2_def s3_def by simp
qed

theorem set_notifies_in_order_witness:
  "0 < length (sigs two_listeners) \<and> isWritable (kind (sig_at two_listeners 0)) \<and>
   \<not> equal_fn (sig_at two_listeners 0) (val (sig_at two_listeners 0)) 1 \<and>
   listeners (sig_at two_listeners 0) = [External 1] @ External 2 # [] \<and> calm 0 observer \<and>
   set_signal observer 1 0 1 two_listeners =
     (Inr (), (upd 0 (\<lambda>g. g\<lparr>val := 1\<rparr>) two_listeners)\<lparr>trace := [Called 1 1, Called 2 1]\<rparr>) \<and>
   fst (read (Suc 0) 0 (snd (notify (invoke observer (passUpdate observer 1)) (\<lambda>w. 1) [External 1]
       (upd 0 (\<lambda>g. g\<lparr>val := 1\<rparr>) two_listeners)))) = Inr 1"
proof -
  have a: "0 < length (sigs two_listeners)" "isWritable (kind (sig_at two_listeners 0))"
    "\<not> equal_fn (sig_at two_listeners 0) (val (sig_at two_listeners 0)) 1"
    "listeners (sig_at two_listeners 0) = [External 1] @ External 2 # []"
    by (simp_all add: two_listeners_def sig_at_def isWritable_def defaultEqual_def)
  have tr: "trace two_listeners = []" by (simp add: two_listeners_def)
  have e: "[External 1] @ External 2 # [] = map External [1, 2]" by simp
  note t = set_notifies_in_order[OF a calm_observer, of 1 0]
  from t have "\<forall>ns. [External 1] @ External 2 # [] = map External ns \<longrightarrow>
      set_signal observer 1 0 1 two_listeners =
        (Inr (), (upd 0 (\<lambda>g. g\<lparr>val := 1\<rparr>) two_listeners)
           \<lparr>trace := trace two_listeners @ map (\<lambda>n. Called n 1) ns\<rparr>)"
    by blast
  then have "set_signal observer 1 0 1 two_listeners =
        (Inr (), (upd 0 (\<lambda>g. g\<lparr>val := 1\<rparr>) two_listeners)
           \<lparr>trace := trace two_listeners @ map (\<lambda>n. Called n 1) [1, 2]\<rparr>)"
    using e by blast
  then have X: "set_signal observer 1 0 1 two_listeners =
     (Inr (), (upd 0 (\<lambda>g. g\<lparr>val := 1\<rparr>) two_listeners)\<lparr>trace := [Called 1 1, Called 2 1]\<rparr>)"
    by (simp only: tr append_Nil list.map)
  from t have Y: "fst (read (Suc 0) 0 (snd (notify (invoke observer (passUpdate observer 1)) (\<lambda>w. 1) [External 1]
       (upd 0 (\<lambda>g. g\<lparr>val := 1\<rparr>) two_listeners)))) = Inr 1"
    by blast
  show ?thesis by (intro conjI a calm_observer X Y)
qed

text \<open>
  The scenario \<open>L1 = v => { if (v === 1) sig.set(2) }\<close>, \<open>L2\<close> only looking, \<open>sig.set(1)\<close>:
  the calls are \<open>L1(1)\<close>, \<open>L1(2)\<close>, \<open>L2(2)\<close>, \<open>L2(1)\<close>, and \<open>L2\<close> is called with 1 in a world
  where reading the signal gives 2. These listeners are not \<open>calm\<close>.
\<close>

theorem reentrant_listener_counterexample:
  "set_signal (rewriter 2) 2 0 1 two_listeners =
     (Inr (),
      \<lparr>sigs = [\<lparr>val = 2, listeners = [External 1, External 2], cleanups = [], deps = [],
               equal_fn = defaultEqual, kind = Writable\<rparr>],
       contextStack = [],
       trace = [Called 1 1, Called 1 2, Called 2 2, Called 2 1]\<rparr>) \<and>
   fst (read 1 0 (snd (invoke (rewriter 2) (passUpdate (rewriter 2) 2) (External 1) 1
          (upd 0 (\<lambda>g. g\<lparr>val := 1\<rparr>) two_listeners)))) = Inr 2 \<and>
   \<not> calm 0 (rewriter 2)"
proof -
  have ab: "set_signal (rewriter 2) 2 0 1 two_listeners =
     (Inr (),
      \<lparr>sigs = [\<lparr>val = 2, listeners = [External 1, External 2], cleanups = [], deps = [],
               equal_fn = defaultEqual, kind = Writable\<rparr>],
       contextStack = [],
       trace = [Called 1 1, Called 1 2, Called 2 2, Called 2 1]\<rparr>) \<and>
   fst (read 1 0 (snd (invoke (rewriter 2) (passUpdate (rewriter 2) 2) (External 1) 1
          (upd 0 (\<lambda>g. g\<lparr>val := 1\<rparr>) two_listeners)))) = Inr 2"
    by (simp add: two_listeners_def eval_defs invoke_def numeral_2_eq_2)
  have c: "\<not> calm 0 (rewriter 2)"
  proof
    assume "calm 0 (rewriter 2)"
    then have "undisturbed 0 two_listeners (snd (rewriter 2 1 1 two_listeners))"
      by (simp add: calm_def)
    then show False
      by (simp add: undisturbed_def two_listeners_def eval_defs invoke_def numeral_2_eq_2)
  qed
  show ?thesis by (rule conjI[OF conjunct1[OF ab] conjI[OF conjunct2[OF ab] c]])
qed



text \<open>
  C7 (as amended): subscribing an outside listener to an inactive computed or linked
  signal of a consistently wired world, then calling the returned unsubscribe with a call
  depth of at least the signal's index. The unsubscribe returns; it empties the listener
  set, runs every cleanup and clears the cleanup set. Every dependency had the
  dependency-changed handler after the subscription and has lost it after the
  unsubscription, and every signal of the world has the listeners, and the number of
  listeners, it had before the subscription. If the listener was subscribed nowhere
  before, no later write to any signal calls it. Every world built from the empty one
  by calls that returned normally is consistently wired (\<open>reachable_wired\<close>). Where
  every signal depends on and reads only signals created before it and no computation
  has a \<open>throw\<close>, the subscription returns for every call depth above the signal's index
  plus one.
\<close>

theorem unsubscribe_releases_dependencies:
  fixes s0 :: "'v world"
  assumes w0: "wired s0 (\<lambda>x. None)" and i: "i < length (sigs s0)"
    and nw: "\<not> isWritable (kind (sig_at s0 i))" and inact: "listeners (sig_at s0 i) = []"
    and sub: "subscribe observer d1 i (External n) s0 = (Inr c, s1)"
    and fuel: "i \<le> d2"
  shows "c = Unsubscribe i (External n) \<and>
         listeners (sig_at s1 i) = [External n] \<and>
         cleanups (sig_at s1 i) = map (\<lambda>e. Unsubscribe e (PassUpdate i)) (deps (sig_at s0 i)) \<and>
         unsubscribe (Suc d2) c s1 =
           (case run_cleanups (unsubscribe d2) (cleanups (sig_at s1 i))
                   (upd i (\<lambda>g. g\<lparr>listeners := []\<rparr>) s1) of
              (Inl e, w) \<Rightarrow> (Inl e, w)
            | (Inr u, w) \<Rightarrow> (Inr (), upd i (\<lambda>g. g\<lparr>cleanups := []\<rparr>) w)) \<and>
         (\<exists>s2. unsubscribe (Suc d2) c s1 = (Inr (), s2) \<and>
            listeners (sig_at s2 i) = [] \<and> cleanups (sig_at s2 i) = [] \<and>
            (\<forall>dep \<in> set (deps (sig_at s0 i)).
               PassUpdate i \<in> set (listeners (sig_at s1 dep)) \<and>
               PassUpdate i \<notin> set (listeners (sig_at s2 dep)) \<and>
               length (listeners (sig_at s2 dep)) = length (listeners (sig_at s0 dep))) \<and>
            (\<forall>k < length (sigs s0).
               set (listeners (sig_at s2 k)) = set (listeners (sig_at s0 k)) \<and>
               length (listeners (sig_at s2 k)) = length (listeners (sig_at s0 k))) \<and>
            (unheld n s0 \<longrightarrow>
               (\<forall>d3 dep v. calls_to n (snd (set_signal observer d3 dep v s2)) = calls_to n s2))) \<and>
         (layered False s0 \<longrightarrow>
            (\<forall>d. Suc i < d \<longrightarrow> (\<exists>c' s'. subscribe observer d i (External n) s0 = (Inr c', s'))))"
proof -
  let ?none = "\<lambda>x::sid. None :: sid set option"
  have c: "c = Unsubscribe i (External n)"
    using subscribe_Inr[OF sub] by simp
  have p1: "sub_post s0 ?none i (External n) s1"
    by (rule subscribe_wired[OF w0 i _ _ _ sub]) (simp_all add: addable_def)
  have w1: "wired s1 ?none" using p1 by (simp add: sub_post_def part_add_def)
  have g1: "grows s0 s1" using subscribe_grows[of s0 d1 i "External n"] sub by simp
  have st1: "length (sigs s1) = length (sigs s0)"
    "\<And>k. k < length (sigs s0) \<Longrightarrow> deps (sig_at s1 k) = deps (sig_at s0 k)"
    "\<And>k. k < length (sigs s0) \<Longrightarrow> kind (sig_at s1 k) = kind (sig_at s0 k)"
    using grows_statics[OF g1] by simp_all
  have l1: "listeners (sig_at s1 i) = [External n]"
    using p1 inact by (simp add: sub_post_def set_add_def)
  have i1: "i < length (sigs s1)" using i st1 by simp
  have nw1: "\<not> isWritable (kind (sig_at s1 i))" using nw st1(3)[OF i] by simp
  have cl1: "cleanups (sig_at s1 i) = map (\<lambda>e. Unsubscribe e (PassUpdate i)) (deps (sig_at s0 i))"
    using w1 i1 nw1 l1 st1(2)[OF i] by (simp add: wired_def)
  have eq: "unsubscribe (Suc d2) c s1 =
           (case run_cleanups (unsubscribe d2) (cleanups (sig_at s1 i))
                   (upd i (\<lambda>g. g\<lparr>listeners := []\<rparr>) s1) of
              (Inl e, w) \<Rightarrow> (Inl e, w)
            | (Inr u, w) \<Rightarrow> (Inr (), upd i (\<lambda>g. g\<lparr>cleanups := []\<rparr>) w))"
  proof -
    have "upd i (\<lambda>g. g\<lparr>listeners := removeAll (External n) (listeners g)\<rparr>) s1 =
          upd i (\<lambda>g. g\<lparr>listeners := []\<rparr>) s1"
      using l1 by (simp add: upd_def sig_at_def)
    then show ?thesis unfolding c unsubscribe_Suc[OF i1] using nw1 l1 by simp
  qed
  have "\<exists>s'. unsubscribe (Suc d2) (Unsubscribe i (External n)) s1 = (Inr (), s') \<and> unsub_ok s1 s'"
    by (rule unsubscribe_returns[OF wired_cleanups_below[OF w1] i1]) (use fuel in simp)
  then obtain s2 where unsub: "unsubscribe (Suc d2) c s1 = (Inr (), s2)" unfolding c by blast
  have p2: "unsub_post s1 ?none i (External n) s2"
    by (rule unsubscribe_wired[OF w1 i1 _ _ _ unsub[unfolded c]]) (simp_all add: removable_def)
  have w2: "wired s2 ?none" using p2 by (simp add: unsub_post_def part_del_def)
  have st2: "length (sigs s2) = length (sigs s0)"
    "\<And>k. k < length (sigs s0) \<Longrightarrow> deps (sig_at s2 k) = deps (sig_at s0 k)"
    "\<And>k. k < length (sigs s0) \<Longrightarrow> kind (sig_at s2 k) = kind (sig_at s0 k)"
    using p2 st1 by (simp_all add: unsub_post_def)
  have ext: "\<forall>k < length (sigs s0). \<forall>m. External m \<in> set (listeners (sig_at s2 k)) \<longleftrightarrow>
               External m \<in> set (listeners (sig_at s0 k))"
    using p1 p2 st1(1) inact by (auto simp: sub_post_def unsub_post_def)
  have sets: "set (listeners (sig_at s2 k)) = set (listeners (sig_at s0 k))" if "k < length (sigs s0)" for k
    by (rule wired_listeners_set[OF w0 w2 st2(1) _ ext that]) (use st2 in simp)
  have lens: "length (listeners (sig_at s2 k)) = length (listeners (sig_at s0 k))"
    if "k < length (sigs s0)" for k
  proof -
    have "distinct (listeners (sig_at s2 k))" "distinct (listeners (sig_at s0 k))"
      using w0 w2 that st2(1) by (simp_all add: wired_def)
    then show ?thesis using sets[OF that] by (metis distinct_card)
  qed
  have l2: "listeners (sig_at s2 i) = []" using sets[OF i] inact by simp
  have nw2: "\<not> isWritable (kind (sig_at s2 i))" using nw st2(3)[OF i] by simp
  have cl2: "cleanups (sig_at s2 i) = []"
    using w2 i st2(1) nw2 l2 by (simp add: wired_def)
  have ord: "\<forall>dep \<in> set (deps (sig_at s0 i)). dep < i" using w0 i by (simp add: wired_def)
  have deps_part: "\<forall>dep \<in> set (deps (sig_at s0 i)).
            PassUpdate i \<in> set (listeners (sig_at s1 dep)) \<and>
            PassUpdate i \<notin> set (listeners (sig_at s2 dep)) \<and>
            length (listeners (sig_at s2 dep)) = length (listeners (sig_at s0 dep))"
  proof
    fix dep assume d: "dep \<in> set (deps (sig_at s0 i))"
    then have dn: "dep < length (sigs s0)" using ord i by fastforce
    have a: "PassUpdate i \<in> set (listeners (sig_at s1 dep)) \<longleftrightarrow> dep \<in> held_by s1 ?none i"
      using w1 dn st1(1) by (simp add: wired_def)
    have b: "PassUpdate i \<in> set (listeners (sig_at s2 dep)) \<longleftrightarrow> dep \<in> held_by s2 ?none i"
      using w2 dn st2(1) by (simp add: wired_def)
    have "dep \<in> held_by s1 ?none i" using i1 nw1 l1 st1(2)[OF i] d by (simp add: held_by_def)
    moreover have "dep \<notin> held_by s2 ?none i" using l2 by (simp add: held_by_def)
    ultimately show "PassUpdate i \<in> set (listeners (sig_at s1 dep)) \<and>
            PassUpdate i \<notin> set (listeners (sig_at s2 dep)) \<and>
            length (listeners (sig_at s2 dep)) = length (listeners (sig_at s0 dep))"
      using a b lens[OF dn] by simp
  qed
  have quiet: "unheld n s0 \<longrightarrow>
            (\<forall>d3 dep v. calls_to n (snd (set_signal observer d3 dep v s2)) = calls_to n s2)"
  proof (intro impI allI)
    fix d3 dep v assume u: "unheld n s0"
    have "unheld n s2" using u sets st2(1) by (simp add: unheld_def)
    then show "calls_to n (snd (set_signal observer d3 dep v s2)) = calls_to n s2"
      using set_signal_deaf[of n s2 d3 dep v] by (simp add: deaf_def)
  qed
  have "\<exists>s2. unsubscribe (Suc d2) c s1 = (Inr (), s2) \<and>
            listeners (sig_at s2 i) = [] \<and> cleanups (sig_at s2 i) = [] \<and>
            (\<forall>dep \<in> set (deps (sig_at s0 i)).
               PassUpdate i \<in> set (listeners (sig_at s1 dep)) \<and>
               PassUpdate i \<notin> set (listeners (sig_at s2 dep)) \<and>
               length (listeners (sig_at s2 dep)) = length (listeners (sig_at s0 dep))) \<and>
            (\<forall>k < length (sigs s0).
               set (listeners (sig_at s2 k)) = set (listeners (sig_at s0 k)) \<and>
               length (listeners (sig_at s2 k)) = length (listeners (sig_at s0 k))) \<and>
            (unheld n s0 \<longrightarrow>
               (\<forall>d3 dep v. calls_to n (snd (set_signal observer d3 dep v s2)) = calls_to n s2))"
    using unsub l2 cl2 deps_part sets lens quiet by blast
  moreover have "layered False s0 \<longrightarrow>
            (\<forall>d. Suc i < d \<longrightarrow> (\<exists>c' s'. subscribe observer d i (External n) s0 = (Inr c', s')))"
  proof (intro impI allI)
    fix d assume lay: "layered False s0" and d: "Suc i < d"
    have "fine False (fst (subscribe observer d i (External n) s0)) \<and>
          beyond i s0 (snd (subscribe observer d i (External n) s0))"
      by (rule subscribe_fine[OF lay i d]) (simp add: internal_def)
    then show "\<exists>c' s'. subscribe observer d i (External n) s0 = (Inr c', s')"
      by (cases "subscribe observer d i (External n) s0"; cases "fst (subscribe observer d i (External n) s0)")
         simp_all
  qed
  ultimately show ?thesis
    using c l1 cl1 eq by blast
qed

theorem unsubscribe_releases_dependencies_witness:
  "reachable doubled_inactive \<and> wired doubled_inactive (\<lambda>x. None) \<and>
   layered False doubled_inactive \<and>
   1 < length (sigs doubled_inactive) \<and> \<not> isWritable (kind (sig_at doubled_inactive 1)) \<and>
   listeners (sig_at doubled_inactive 1) = [] \<and> unheld 7 doubled_inactive \<and>
   subscribe observer (Suc (Suc 0)) 1 (External 7) doubled_inactive =
     (Inr (Unsubscribe 1 (External 7)), doubled_active) \<and>
   unsubscribe (Suc (Suc 0)) (Unsubscribe 1 (External 7)) doubled_active = (Inr (), doubled_released) \<and>
   PassUpdate 1 \<in> set (listeners (sig_at doubled_active 0)) \<and>
   PassUpdate 1 \<notin> set (listeners (sig_at doubled_released 0)) \<and>
   length (listeners (sig_at doubled_released 0)) = length (listeners (sig_at doubled_inactive 0)) \<and>
   cleanups (sig_at doubled_released 1) = [] \<and>
   calls_to 7 (snd (set_signal observer (Suc (Suc 0)) 0 5 doubled_released)) = calls_to 7 doubled_released"
proof -
  have a: "1 < length (sigs doubled_inactive)" "\<not> isWritable (kind (sig_at doubled_inactive 1))"
    "listeners (sig_at doubled_inactive 1) = []"
    by (simp_all add: doubled_inactive_eq sig_at_def isWritable_def)
  have u: "unheld 7 doubled_inactive"
    by (auto simp: unheld_def doubled_inactive_eq sig_at_def less_Suc_eq nth_Cons')
  have m: "0 \<in> set (deps (sig_at doubled_inactive 1))"
    by (simp add: doubled_inactive_eq sig_at_def)
  have w: "wired doubled_inactive (\<lambda>x. None)"
    by (rule reachable_wired[OF reachable_doubled_inactive])
  have f: "(1::nat) \<le> Suc 0" by simp
  have lay: "layered False doubled_inactive"
    by (auto simp: layered_def kind_ok_def doubled_inactive_eq doubled_def sig_at_def less_Suc_eq)
  note t = unsubscribe_releases_dependencies[OF w a doubled_subscribe f]
  from t obtain s2 where s2: "unsubscribe (Suc (Suc 0)) (Unsubscribe 1 (External 7)) doubled_active = (Inr (), s2)"
    and r: "cleanups (sig_at s2 1) = []"
      "\<forall>dep \<in> set (deps (sig_at doubled_inactive 1)).
               PassUpdate 1 \<in> set (listeners (sig_at doubled_active dep)) \<and>
               PassUpdate 1 \<notin> set (listeners (sig_at s2 dep)) \<and>
               length (listeners (sig_at s2 dep)) = length (listeners (sig_at doubled_inactive dep))"
      "unheld 7 doubled_inactive \<longrightarrow>
               (\<forall>d3 dep v. calls_to 7 (snd (set_signal observer d3 dep v s2)) = calls_to 7 s2)"
    by blast
  have e: "s2 = doubled_released" using s2 doubled_unsubscribe by simp
  show ?thesis
    using r[unfolded e] w lay reachable_doubled_inactive a u m doubled_subscribe doubled_unsubscribe
    by blast
qed

lemma leaked_eq:
  "leaked =
     \<lparr>sigs = [\<lparr>val = 1, listeners = [PassUpdate 1], cleanups = [], deps = [],
               equal_fn = defaultEqual, kind = Writable\<rparr>,
              \<lparr>val = 1, listeners = [], cleanups = [Unsubscribe 0 (PassUpdate 1)], deps = [0],
               equal_fn = defaultEqual, kind = Computed guarded\<rparr>],
      contextStack = [], trace = [Executed 1, Executed 1, Executed 1]\<rparr>"
  by (simp add: leaked_def guarded_cell_def one_cell_eq guarded_def eval_defs numeral_2_eq_2)

lemma leaked_not_wired: "\<not> wired leaked (\<lambda>x. None)"
proof
  assume w: "wired leaked (\<lambda>x. None)"
  then have "\<forall>e < length (sigs leaked). \<forall>x. PassUpdate x \<in> set (listeners (sig_at leaked e)) \<longleftrightarrow>
      e \<in> held_by leaked (\<lambda>x. None) x"
    by (simp add: wired_def)
  then have "PassUpdate 1 \<in> set (listeners (sig_at leaked 0)) \<longleftrightarrow> 0 \<in> held_by leaked (\<lambda>x. None) 1"
    by (simp add: leaked_eq)
  then show False by (simp add: leaked_eq held_by_def sig_at_def isWritable_def)
qed

text \<open>
  A world outside the invariant: the computation throws during the first activation, so
  the dependency keeps the handler while the signal has no listener. The next
  subscription and unsubscription of a listener leave the dependency with no listener,
  one fewer than before that subscription.
\<close>

theorem failed_activation_counterexample:
  "fst (subscribe observer 2 1 (External 7) guarded_cell) = Inl Thrown \<and>
   deps (sig_at leaked 1) = [0] \<and> listeners (sig_at leaked 1) = [] \<and>
   listeners (sig_at leaked 0) = [PassUpdate 1] \<and>
   fst (subscribe observer 2 1 (External 7) leaked) = Inr (Unsubscribe 1 (External 7)) \<and>
   fst (unsubscribe 2 (Unsubscribe 1 (External 7)) (snd (subscribe observer 2 1 (External 7) leaked))) = Inr () \<and>
   listeners (sig_at (snd (unsubscribe 2 (Unsubscribe 1 (External 7))
      (snd (subscribe observer 2 1 (External 7) leaked)))) 0) = [] \<and>
   length (listeners (sig_at (snd (unsubscribe 2 (Unsubscribe 1 (External 7))
      (snd (subscribe observer 2 1 (External 7) leaked)))) 0)) \<noteq> length (listeners (sig_at leaked 0)) \<and>
   \<not> wired leaked (\<lambda>x. None)"
proof -
  have a: "fst (subscribe observer 2 1 (External 7) guarded_cell) = Inl Thrown \<and>
   deps (sig_at leaked 1) = [0] \<and> listeners (sig_at leaked 1) = [] \<and>
   listeners (sig_at leaked 0) = [PassUpdate 1] \<and>
   fst (subscribe observer 2 1 (External 7) leaked) = Inr (Unsubscribe 1 (External 7)) \<and>
   fst (unsubscribe 2 (Unsubscribe 1 (External 7)) (snd (subscribe observer 2 1 (External 7) leaked))) = Inr () \<and>
   listeners (sig_at (snd (unsubscribe 2 (Unsubscribe 1 (External 7))
      (snd (subscribe observer 2 1 (External 7) leaked)))) 0) = [] \<and>
   length (listeners (sig_at (snd (unsubscribe 2 (Unsubscribe 1 (External 7))
      (snd (subscribe observer 2 1 (External 7) leaked)))) 0)) \<noteq> length (listeners (sig_at leaked 0))"
    by (simp add: leaked_def guarded_cell_def one_cell_eq guarded_def eval_defs numeral_2_eq_2)
  show ?thesis
    apply (insert a leaked_not_wired)
    apply (intro conjI)
    apply (elim conjE, assumption)+
    done
qed



end
